theory Spec2Isabelle
  imports Main "HOL-Library.List_Lexorder"
begin

section \<open>Python strings\<close>

text \<open>
  A Python \<open>str\<close> is a sequence of Unicode code points, so a character is modelled by its
  code point and a string by a list of code points. \<open>ustr\<close> reads an ASCII literal
  as such a string.
\<close>

type_synonym pychar = nat
type_synonym pystr = "pychar list"

definition ustr :: "string \<Rightarrow> pystr" where
  "ustr s = map of_char s"

text \<open>
  \<open>str.isspace\<close> on one character: the code points that \<open>str.strip()\<close> removes
  (U+0009..U+000D, U+001C..U+0020, U+0085, U+00A0, U+1680, U+2000..U+200A, U+2028, U+2029,
  U+202F, U+205F, U+3000).
\<close>

definition isspace :: "pychar \<Rightarrow> bool" where
  "isspace c \<longleftrightarrow>
     (9 \<le> c \<and> c \<le> 13) \<or> (28 \<le> c \<and> c \<le> 32) \<or> c = 133 \<or> c = 160 \<or> c = 5760 \<or>
     (8192 \<le> c \<and> c \<le> 8202) \<or> c = 8232 \<or> c = 8233 \<or> c = 8239 \<or> c = 8287 \<or> c = 12288"

text \<open>\<open>s.strip()\<close>: leading and trailing whitespace removed.\<close>

definition strip :: "pystr \<Rightarrow> pystr" where
  "strip s = rev (dropWhile isspace (rev (dropWhile isspace s)))"

text \<open>\<open>s.startswith(p)\<close>.\<close>

definition startswith :: "pystr \<Rightarrow> pystr \<Rightarrow> bool" where
  "startswith s p \<longleftrightarrow> take (length p) s = p"

text \<open>
  \<open>s.split(sep, 1)\<close> for a separator of one character: at most one split, at the first
  occurrence of the separator; a string without the separator comes back whole.
\<close>

definition split_once :: "pystr \<Rightarrow> pychar \<Rightarrow> pystr list" where
  "split_once s sep =
     (if sep \<in> set s
      then [takeWhile (\<lambda>c. c \<noteq> sep) s, tl (dropWhile (\<lambda>c. c \<noteq> sep) s)]
      else [s])"

text \<open>\<open>sep.join(xs)\<close>.\<close>

fun join :: "pystr \<Rightarrow> pystr list \<Rightarrow> pystr" where
  "join sep [] = []"
| "join sep [x] = x"
| "join sep (x # y # ys) = x @ sep @ join sep (y # ys)"

section \<open>Errors, dictionaries, files\<close>

text \<open>
  The exceptions the program can end with: the \<open>IndexError\<close> of \<open>[1]\<close> on a list that
  is too short, the \<open>SystemExit\<close> raised by \<open>run_queries\<close> with its message, and an
  exception of the database engine, which is not caught.
\<close>

datatype error = IndexError | SystemExit pystr | EngineError pystr

definition item :: "'a list \<Rightarrow> nat \<Rightarrow> error + 'a" where
  "item xs i = (if i < length xs then Inr (xs ! i) else Inl IndexError)"

text \<open>
  A Python \<open>dict\<close> keeps its keys in insertion order, and \<open>run_queries\<close> iterates over
  it, so the dictionary is an association list in that order. \<open>d[k] = v\<close> replaces the
  value of a key that is present, where it stands, and appends a new key at the end.
\<close>

type_synonym pydict = "(pystr \<times> pystr) list"

fun dict_set :: "pydict \<Rightarrow> pystr \<Rightarrow> pystr \<Rightarrow> pydict" where
  "dict_set [] k v = [(k, v)]"
| "dict_set ((k', v') # d) k v =
     (if k' = k then (k', v) # d else (k', v') # dict_set d k v)"

definition keys :: "pydict \<Rightarrow> pystr list" where
  "keys d = map fst d"

text \<open>
  The file is opened in text mode with universal newlines: \<open>\r\n\<close> and a lone \<open>\r\<close>
  are read as \<open>\n\<close>. The argument is the decoded text of the file; a file that cannot
  be opened or decoded is outside the model.
\<close>

fun universal_newlines :: "pystr \<Rightarrow> pystr" where
  "universal_newlines [] = []"
| "universal_newlines [c] = (if c = 13 then [10] else [c])"
| "universal_newlines (c # d # cs) =
     (if c = 13 \<and> d = 10 then 10 # universal_newlines cs
      else if c = 13 then 10 # universal_newlines (d # cs)
      else c # universal_newlines (d # cs))"

text \<open>
  \<open>for line in f\<close>: the lines of the text, each with its terminating \<open>\n\<close>; the last
  line has none when the text does not end with one.
\<close>

fun split_lines :: "pystr \<Rightarrow> pystr list" where
  "split_lines [] = []"
| "split_lines (c # cs) =
     (if c = 10 then [c] # split_lines cs
      else (case split_lines cs of [] \<Rightarrow> [[c]] | l # ls \<Rightarrow> (c # l) # ls))"

definition file_lines :: "pystr \<Rightarrow> pystr list" where
  "file_lines text = split_lines (universal_newlines text)"

section \<open>\<open>parse_named_queries\<close>\<close>

text \<open>The local variables of the function.\<close>

record state =
  queries :: pydict
  current_name :: "pystr option"
  buffer :: "pystr list"

definition init :: state where
  "init = \<lparr>queries = [], current_name = None, buffer = []\<rparr>"

definition marker :: pystr where
  "marker = ustr ''-- name:''"

text \<open>\<open>line.strip().startswith("-- name:")\<close>.\<close>

definition is_directive :: "pystr \<Rightarrow> bool" where
  "is_directive line \<longleftrightarrow> startswith (strip line) marker"

text \<open>\<open>line.split(":", 1)[1].strip()\<close>.\<close>

definition directive_name :: "pystr \<Rightarrow> error + pystr" where
  "directive_name line =
     (case item (split_once line 58) 1 of
        Inl e \<Rightarrow> Inl e
      | Inr s \<Rightarrow> Inr (strip s))"

text \<open>
  \<open>current_name and buffer\<close>: the name is neither \<open>None\<close> nor the empty string, and
  the buffer holds at least one line.
\<close>

definition pending :: "state \<Rightarrow> bool" where
  "pending st \<longleftrightarrow>
     (case current_name st of None \<Rightarrow> False | Some n \<Rightarrow> n \<noteq> []) \<and> buffer st \<noteq> []"

text \<open>\<open>queries[current_name] = "".join(buffer).strip()\<close>.\<close>

definition store :: "state \<Rightarrow> pydict" where
  "store st =
     (case current_name st of
        None \<Rightarrow> queries st
      | Some n \<Rightarrow> dict_set (queries st) n (strip (join [] (buffer st))))"

text \<open>The body of the loop, for one line.\<close>

definition step :: "state \<Rightarrow> pystr \<Rightarrow> error + state" where
  "step st line =
     (if is_directive line then
        (let st1 = (if pending st then st\<lparr>queries := store st, buffer := []\<rparr> else st)
         in case directive_name line of
              Inl e \<Rightarrow> Inl e
            | Inr n \<Rightarrow> Inr (st1\<lparr>current_name := Some n\<rparr>))
      else Inr (st\<lparr>buffer := buffer st @ [line]\<rparr>))"

fun run_lines :: "state \<Rightarrow> pystr list \<Rightarrow> error + state" where
  "run_lines st [] = Inr st"
| "run_lines st (l # ls) =
     (case step st l of Inl e \<Rightarrow> Inl e | Inr st' \<Rightarrow> run_lines st' ls)"

text \<open>The flush after the loop, and the value returned.\<close>

definition finish :: "state \<Rightarrow> pydict" where
  "finish st = (if pending st then store st else queries st)"

definition parse_lines :: "pystr list \<Rightarrow> error + pydict" where
  "parse_lines ls =
     (case run_lines init ls of Inl e \<Rightarrow> Inl e | Inr st \<Rightarrow> Inr (finish st))"

definition parse_named_queries :: "pystr \<Rightarrow> error + pydict" where
  "parse_named_queries text = parse_lines (file_lines text)"

section \<open>\<open>run_queries\<close>\<close>

text \<open>
  What the function does to the outside is a list of events, in the order they happen:
  a line printed, a statement handed to the engine, the rows printed one by one, or the
  fetched list printed as a whole under \<open>explain\<close>. The rows are values of the engine
  and stay abstract.
\<close>

datatype 'r event = Print pystr | Execute pystr | Print_row 'r | Print_rows "'r list"

text \<open>
  \<open>conn.execute(stmt).fetchall()\<close> either raises an exception of the engine or gives the
  rows. Opening the connection may raise as well, so the engine is the error of
  \<open>get_connection\<close> or a connection.
\<close>

type_synonym 'r connection = "pystr \<Rightarrow> pystr + 'r list"
type_synonym 'r engine = "pystr + 'r connection"

definition heading :: "pystr \<Rightarrow> pystr" where
  "heading name = [10] @ ustr ''-- '' @ name @ ustr '' --''"

definition plan_prefix :: "bool \<Rightarrow> pystr" where
  "plan_prefix explain = (if explain then ustr ''EXPLAIN ANALYZE '' else [])"

text \<open>\<open>selected and name != selected\<close>: an empty \<open>selected\<close> counts as none.\<close>

definition skipped :: "pystr option \<Rightarrow> pystr \<Rightarrow> bool" where
  "skipped selected name \<longleftrightarrow>
     (case selected of None \<Rightarrow> False | Some s \<Rightarrow> s \<noteq> [] \<and> name \<noteq> s)"

text \<open>
  The loop over \<open>queries.items()\<close>, in the order of the dictionary. An exception of the
  engine ends it after the statement that raised.
\<close>

fun run_loop ::
  "'r connection \<Rightarrow> pystr option \<Rightarrow> bool \<Rightarrow> pydict \<Rightarrow> 'r event list \<times> error option"
where
  "run_loop conn selected explain [] = ([], None)"
| "run_loop conn selected explain ((name, sql) # qs) =
     (if skipped selected name then run_loop conn selected explain qs
      else
        (case conn (plan_prefix explain @ sql) of
           Inl e \<Rightarrow>
             ([Print (heading name), Execute (plan_prefix explain @ sql)], Some (EngineError e))
         | Inr rows \<Rightarrow>
             (case run_loop conn selected explain qs of
                (evs, r) \<Rightarrow>
                  ([Print (heading name), Execute (plan_prefix explain @ sql)]
                   @ (if explain then [Print_rows rows] else map Print_row rows) @ evs, r))))"

text \<open>\<open>selected and selected not in queries\<close>.\<close>

definition not_found :: "pystr option \<Rightarrow> pydict \<Rightarrow> bool" where
  "not_found selected qs \<longleftrightarrow>
     (case selected of None \<Rightarrow> False | Some s \<Rightarrow> s \<noteq> [] \<and> s \<notin> set (keys qs))"

text \<open>
  The message of the \<open>SystemExit\<close>; \<open>sorted(queries)\<close> sorts the keys, and Python
  compares strings code point by code point, which is the lexicographic order on lists.
\<close>

definition not_found_message :: "pystr option \<Rightarrow> pydict \<Rightarrow> pystr" where
  "not_found_message selected qs =
     ustr ''Query '' @ [39] @ (case selected of None \<Rightarrow> ustr ''None'' | Some s \<Rightarrow> s) @ [39]
     @ ustr '' not found. Available: '' @ join (ustr '', '') (sort (keys qs))"

text \<open>
  The argument \<open>text\<close> is the text of the queries file, which the function reads itself
  before anything else.
\<close>

definition run_queries ::
  "'r engine \<Rightarrow> pystr \<Rightarrow> pystr option \<Rightarrow> bool \<Rightarrow> 'r event list \<times> error option"
where
  "run_queries engine text selected explain =
     (case parse_named_queries text of
        Inl e \<Rightarrow> ([], Some e)
      | Inr qs \<Rightarrow>
          (if not_found selected qs
           then ([], Some (SystemExit (not_found_message selected qs)))
           else
             (case engine of
                Inl e \<Rightarrow> ([], Some (EngineError e))
              | Inr conn \<Rightarrow> run_loop conn selected explain qs)))"

text \<open>The statements handed to the engine, in order.\<close>

fun executed :: "'r event list \<Rightarrow> pystr list" where
  "executed [] = []"
| "executed (Execute s # evs) = s # executed evs"
| "executed (_ # evs) = executed evs"

section \<open>The revenue rank of \<open>mart.customer_rollups\<close>\<close>

text \<open>
  The last statement of \<open>transform\<close> groups \<open>mart.fact_orders\<close> by customer and numbers
  the groups with \<open>ROW_NUMBER() OVER (ORDER BY SUM(gross_revenue) DESC)\<close>. The model
  starts from the groups, one pair of \<open>customer_id\<close> and \<open>SUM(gross_revenue)\<close> for each
  customer, in the order the engine holds them; the sums are values of any linear order,
  the arithmetic of \<open>DOUBLE\<close> is not modelled. \<open>ORDER BY ... DESC\<close> puts the larger
  sums first, and \<open>ROW_NUMBER\<close> counts the rows of that order from 1. Which of two
  equal sums comes first is the engine's choice; here it follows from the order of the
  groups.
\<close>

definition order_by_desc :: "('c \<times> 'v::linorder) list \<Rightarrow> ('c \<times> 'v) list" where
  "order_by_desc groups = rev (sort_key snd groups)"

definition row_number :: "'a list \<Rightarrow> ('a \<times> nat) list" where
  "row_number rows = zip rows [1 ..< Suc (length rows)]"

definition revenue_rank :: "('c \<times> 'v::linorder) list \<Rightarrow> (('c \<times> 'v) \<times> nat) list" where
  "revenue_rank groups = row_number (order_by_desc groups)"

text \<open>
  For comparison, the dense rank that the specification names: equal sums share a rank, and
  the rank of a sum is one more than the number of different sums that are larger.
\<close>

definition dense_rank_spec :: "('c \<times> 'v::linorder) list \<Rightarrow> 'v \<Rightarrow> nat" where
  "dense_rank_spec groups v = Suc (length (remdups (filter (\<lambda>w. v < w) (map snd groups))))"

section \<open>Evaluation\<close>

lemmas evals =
  ustr_def isspace_def strip_def startswith_def split_once_def item_def keys_def
  file_lines_def init_def marker_def is_directive_def directive_name_def pending_def
  store_def step_def finish_def parse_lines_def parse_named_queries_def

section \<open>Strings and lines\<close>

lemma join_empty: "join [] xs = concat xs"
  by (induction "[] :: pystr" xs rule: join.induct) simp_all

lemma set_strip: "set (strip s) \<subseteq> set s"
proof -
  have "set (strip s) = set (dropWhile isspace (rev (dropWhile isspace s)))"
    by (simp add: strip_def)
  also have "\<dots> \<subseteq> set (rev (dropWhile isspace s))"
    by (rule set_dropWhileD[THEN subsetI])
  also have "\<dots> \<subseteq> set s"
    using set_dropWhileD by fastforce
  finally show ?thesis .
qed

lemma strip_all_space: "\<forall>c\<in>set s. isspace c \<Longrightarrow> strip s = []"
proof -
  assume "\<forall>c\<in>set s. isspace c"
  then have "dropWhile isspace s = []"
    by simp
  then have "strip s = rev (dropWhile isspace (rev []))"
    by (simp only: strip_def)
  then show ?thesis
    by simp
qed

lemma marker_eval: "marker = [45, 45, 32, 110, 97, 109, 101, 58]"
  by (simp add: marker_def ustr_def)

lemma colon_in_directive: "is_directive l \<Longrightarrow> 58 \<in> set l"
proof -
  assume "is_directive l"
  then have "take (length marker) (strip l) = marker"
    by (simp add: is_directive_def startswith_def)
  moreover have "58 \<in> set marker"
    by (simp add: marker_eval)
  ultimately have "58 \<in> set (take (length marker) (strip l))"
    by simp
  then have "58 \<in> set (strip l)"
    by (rule in_set_takeD)
  then show ?thesis
    using set_strip by blast
qed

lemma directive_name_colon:
  "58 \<in> set l \<Longrightarrow> directive_name l = Inr (strip (tl (dropWhile (\<lambda>c. c \<noteq> 58) l)))"
  by (simp add: directive_name_def split_once_def item_def)

lemma directive_name_total: "is_directive l \<Longrightarrow> \<exists>n. directive_name l = Inr n"
  by (simp add: colon_in_directive directive_name_colon)

lemma blank_not_directive: "\<forall>c\<in>set l. isspace c \<Longrightarrow> \<not> is_directive l"
  by (simp add: is_directive_def startswith_def strip_all_space marker_eval)

lemma step_content: "\<not> is_directive l \<Longrightarrow> step st l = Inr (st\<lparr>buffer := buffer st @ [l]\<rparr>)"
  by (simp add: step_def)

lemma step_directive:
  "is_directive l \<Longrightarrow> directive_name l = Inr n \<Longrightarrow>
   step st l = Inr ((if pending st then st\<lparr>queries := store st, buffer := []\<rparr> else st)\<lparr>current_name := Some n\<rparr>)"
  by (simp add: step_def)

lemma step_total: "\<exists>st'. step st l = Inr st'"
proof (cases "is_directive l")
  case True
  then obtain n where "directive_name l = Inr n"
    using directive_name_total by blast
  with True show ?thesis by (simp add: step_directive)
next
  case False
  then show ?thesis by (simp add: step_content)
qed

lemma run_lines_total: "\<exists>st'. run_lines st ls = Inr st'"
proof (induction ls arbitrary: st)
  case Nil
  show ?case by simp
next
  case (Cons l ls)
  obtain st1 where "step st l = Inr st1"
    using step_total by blast
  with Cons show ?case by simp
qed

lemma run_lines_append:
  "run_lines st xs = Inr st1 \<Longrightarrow> run_lines st (xs @ ys) = run_lines st1 ys"
  by (induction xs arbitrary: st) (auto split: sum.splits)

lemma run_lines_snoc:
  "run_lines st xs = Inr st1 \<Longrightarrow> run_lines st (xs @ [l]) = step st1 l"
  by (simp add: run_lines_append split: sum.splits)

lemma run_lines_content:
  "\<forall>l\<in>set xs. \<not> is_directive l \<Longrightarrow> run_lines st xs = Inr (st\<lparr>buffer := buffer st @ xs\<rparr>)"
  by (induction xs arbitrary: st) (simp_all add: step_content)

lemma parse_lines_run:
  "run_lines init ls = Inr st \<Longrightarrow> parse_lines ls = Inr (finish st)"
  by (simp add: parse_lines_def)

section \<open>Files without a directive\<close>

text \<open>
  C5: \<open>parse_named_queries\<close> returns the empty mapping for the empty file and for every
  file none of whose lines is a directive.
\<close>

theorem parse_no_directive_empty:
  "parse_named_queries [] = Inr [] \<and>
   ((\<forall>l\<in>set (file_lines text). \<not> is_directive l) \<longrightarrow> parse_named_queries text = Inr [])"
proof
  show "parse_named_queries [] = Inr []"
    by (simp add: evals)
next
  show "(\<forall>l\<in>set (file_lines text). \<not> is_directive l) \<longrightarrow> parse_named_queries text = Inr []"
  proof
    assume "\<forall>l\<in>set (file_lines text). \<not> is_directive l"
    then have "run_lines init (file_lines text) = Inr (init\<lparr>buffer := buffer init @ file_lines text\<rparr>)"
      by (rule run_lines_content)
    then have "parse_lines (file_lines text) = Inr (finish (init\<lparr>buffer := buffer init @ file_lines text\<rparr>))"
      by (rule parse_lines_run)
    then show "parse_named_queries text = Inr []"
      by (simp add: parse_named_queries_def finish_def pending_def init_def)
  qed
qed

theorem parse_no_directive_empty_witness:
  "list_all (\<lambda>l. \<not> is_directive l) (file_lines (ustr ''SELECT 1;\<newline>  SELECT 2;'')) \<and>
   parse_named_queries (ustr ''SELECT 1;\<newline>  SELECT 2;'') = Inr []"
proof -
  have h: "list_all (\<lambda>l. \<not> is_directive l) (file_lines (ustr ''SELECT 1;\<newline>  SELECT 2;''))"
    by (simp add: evals)
  then have "\<forall>l\<in>set (file_lines (ustr ''SELECT 1;\<newline>  SELECT 2;'')). \<not> is_directive l"
    by (simp only: list_all_iff)
  with parse_no_directive_empty [of "ustr ''SELECT 1;\<newline>  SELECT 2;''"] h show ?thesis
    by blast
qed

section \<open>Dictionaries\<close>

lemma keys_dict_set:
  "keys (dict_set d k v) = (if k \<in> set (keys d) then keys d else keys d @ [k])"
  by (induction d k v rule: dict_set.induct) (auto simp: keys_def)

lemma map_of_dict_set:
  "map_of (dict_set d k v) k' = (if k' = k then Some v else map_of d k')"
  by (induction d k v rule: dict_set.induct) auto

lemma distinct_dict_set: "distinct (keys d) \<Longrightarrow> distinct (keys (dict_set d k v))"
  by (simp add: keys_dict_set)

lemma set_dict_set: "set (dict_set d k v) \<subseteq> insert (k, v) (set d)"
  by (induction d k v rule: dict_set.induct) auto

lemma map_of_keys: "map_of d k = None \<longleftrightarrow> k \<notin> set (keys d)"
  by (simp add: keys_def map_of_eq_None_iff)

section \<open>One step of the loop\<close>

lemma pending_store:
  "pending st \<Longrightarrow>
   \<exists>n. current_name st = Some n \<and> n \<noteq> [] \<and> buffer st \<noteq> [] \<and>
       store st = dict_set (queries st) n (strip (join [] (buffer st)))"
  by (auto simp: pending_def store_def split: option.splits)

lemma not_pending_empty: "buffer st = [] \<Longrightarrow> \<not> pending st"
  by (simp add: pending_def)

lemma step_cases:
  assumes "step st l = Inr st'"
  obtains (content) "\<not> is_directive l" "st' = st\<lparr>buffer := buffer st @ [l]\<rparr>"
  | (flush) n where "is_directive l" "directive_name l = Inr n" "pending st"
      "st' = \<lparr>queries = store st, current_name = Some n, buffer = []\<rparr>"
  | (keep) n where "is_directive l" "directive_name l = Inr n" "\<not> pending st"
      "st' = st\<lparr>current_name := Some n\<rparr>"
proof (cases "is_directive l")
  case False
  with assms have "st' = st\<lparr>buffer := buffer st @ [l]\<rparr>"
    by (simp add: step_content)
  with False show ?thesis by (rule content)
next
  case True
  then obtain n where n: "directive_name l = Inr n"
    using directive_name_total by blast
  show ?thesis
  proof (cases "pending st")
    case True
    with assms \<open>is_directive l\<close> n have "st' = \<lparr>queries = store st, current_name = Some n, buffer = []\<rparr>"
      by (cases st) (auto simp: step_directive)
    with \<open>is_directive l\<close> n True show ?thesis by (rule flush)
  next
    case False
    with assms \<open>is_directive l\<close> n have "st' = st\<lparr>current_name := Some n\<rparr>"
      by (simp add: step_directive)
    with \<open>is_directive l\<close> n False show ?thesis by (rule keep)
  qed
qed

lemma run_lines_induct [consumes 1, case_names Nil Cons]:
  assumes run: "run_lines st ls = Inr st'"
    and base: "\<And>st. P st [] st"
    and stp: "\<And>st l ls st1 st'. step st l = Inr st1 \<Longrightarrow> run_lines st1 ls = Inr st' \<Longrightarrow>
                P st1 ls st' \<Longrightarrow> P st (l # ls) st'"
  shows "P st ls st'"
  using run
proof (induction ls arbitrary: st)
  case Nil
  then show ?case by (simp add: base)
next
  case (Cons l ls)
  obtain st1 where s1: "step st l = Inr st1"
    using step_total by blast
  with Cons.prems have r: "run_lines st1 ls = Inr st'"
    by simp
  from s1 r Cons.IH [OF r] show ?case by (rule stp)
qed

section \<open>Invariants of the loop\<close>

lemma step_keys_grow:
  assumes "step st l = Inr st'"
  shows "\<exists>ks. keys (queries st') = keys (queries st) @ ks"
  using assms
proof (cases rule: step_cases)
  case content
  then show ?thesis by simp
next
  case (flush n)
  then obtain m where "store st = dict_set (queries st) m (strip (join [] (buffer st)))"
    using pending_store by blast
  with flush show ?thesis by (simp add: keys_dict_set)
next
  case (keep n)
  then show ?thesis by simp
qed

lemma run_lines_keys_grow:
  "run_lines st ls = Inr st' \<Longrightarrow> \<exists>ks. keys (queries st') = keys (queries st) @ ks"
proof (induction rule: run_lines_induct)
  case (Nil st)
  show ?case by simp
next
  case (Cons st l ls st1 st')
  from Cons(1) obtain ks1 where "keys (queries st1) = keys (queries st) @ ks1"
    using step_keys_grow by blast
  moreover from Cons(3) obtain ks2 where "keys (queries st') = keys (queries st1) @ ks2"
    by blast
  ultimately show ?case by simp
qed

lemma finish_keys_grow: "\<exists>ks. keys (finish st) = keys (queries st) @ ks"
proof (cases "pending st")
  case True
  then obtain m where "store st = dict_set (queries st) m (strip (join [] (buffer st)))"
    using pending_store by blast
  with True show ?thesis by (simp add: finish_def keys_dict_set)
next
  case False
  then show ?thesis by (simp add: finish_def)
qed

lemma step_distinct:
  assumes "step st l = Inr st'" "distinct (keys (queries st))"
  shows "distinct (keys (queries st'))"
  using assms(1)
proof (cases rule: step_cases)
  case content
  with assms(2) show ?thesis by simp
next
  case (flush n)
  then obtain m where "store st = dict_set (queries st) m (strip (join [] (buffer st)))"
    using pending_store by blast
  with flush assms(2) show ?thesis by (simp add: distinct_dict_set)
next
  case (keep n)
  with assms(2) show ?thesis by simp
qed

lemma run_lines_distinct:
  "run_lines st ls = Inr st' \<Longrightarrow> distinct (keys (queries st)) \<Longrightarrow> distinct (keys (queries st'))"
  by (induction rule: run_lines_induct) (auto dest: step_distinct)

lemma finish_distinct: "distinct (keys (queries st)) \<Longrightarrow> distinct (keys (finish st))"
proof (cases "pending st")
  case True
  assume d: "distinct (keys (queries st))"
  from True obtain m where "store st = dict_set (queries st) m (strip (join [] (buffer st)))"
    using pending_store by blast
  with True d show ?thesis by (simp add: finish_def distinct_dict_set)
next
  case False
  assume "distinct (keys (queries st))"
  with False show ?thesis by (simp add: finish_def)
qed

lemma step_no_empty_key:
  assumes "step st l = Inr st'" "[] \<notin> set (keys (queries st))"
  shows "[] \<notin> set (keys (queries st'))"
  using assms(1)
proof (cases rule: step_cases)
  case content
  with assms(2) show ?thesis by simp
next
  case (flush n)
  then obtain m where "m \<noteq> []" "store st = dict_set (queries st) m (strip (join [] (buffer st)))"
    using pending_store by blast
  with flush assms(2) show ?thesis by (simp add: keys_dict_set)
next
  case (keep n)
  with assms(2) show ?thesis by simp
qed

lemma run_lines_no_empty_key:
  "run_lines st ls = Inr st' \<Longrightarrow> [] \<notin> set (keys (queries st)) \<Longrightarrow> [] \<notin> set (keys (queries st'))"
  by (induction rule: run_lines_induct) (auto dest: step_no_empty_key)

lemma finish_no_empty_key: "[] \<notin> set (keys (queries st)) \<Longrightarrow> [] \<notin> set (keys (finish st))"
proof (cases "pending st")
  case True
  assume d: "[] \<notin> set (keys (queries st))"
  from True obtain m where "m \<noteq> []" "store st = dict_set (queries st) m (strip (join [] (buffer st)))"
    using pending_store by blast
  with True d show ?thesis by (simp add: finish_def keys_dict_set)
next
  case False
  assume "[] \<notin> set (keys (queries st))"
  with False show ?thesis by (simp add: finish_def)
qed

text \<open>A name that is neither active nor declared by a line keeps its entry, or its absence.\<close>

lemma step_other_name:
  assumes "step st l = Inr st'" "current_name st \<noteq> Some n"
    and "is_directive l \<Longrightarrow> directive_name l \<noteq> Inr n"
  shows "map_of (queries st') n = map_of (queries st) n \<and> current_name st' \<noteq> Some n"
  using assms(1)
proof (cases rule: step_cases)
  case content
  with assms(2) show ?thesis by simp
next
  case (flush m)
  then obtain k where "current_name st = Some k"
    "store st = dict_set (queries st) k (strip (join [] (buffer st)))"
    using pending_store by blast
  with flush assms(2,3) show ?thesis by (auto simp: map_of_dict_set)
next
  case (keep m)
  with assms(2,3) show ?thesis by auto
qed

lemma run_lines_other_name:
  "run_lines st ls = Inr st' \<Longrightarrow> current_name st \<noteq> Some n \<Longrightarrow>
   \<forall>l\<in>set ls. is_directive l \<longrightarrow> directive_name l \<noteq> Inr n \<Longrightarrow>
   map_of (queries st') n = map_of (queries st) n \<and> current_name st' \<noteq> Some n"
proof (induction rule: run_lines_induct)
  case (Nil st)
  then show ?case by simp
next
  case (Cons st l ls st1 st')
  from Cons(1,4,5) have "map_of (queries st1) n = map_of (queries st) n \<and> current_name st1 \<noteq> Some n"
    by (intro step_other_name) auto
  with Cons(3,5) show ?case by simp
qed

lemma finish_other_name:
  "current_name st \<noteq> Some n \<Longrightarrow> map_of (finish st) n = map_of (queries st) n"
proof (cases "pending st")
  case True
  assume d: "current_name st \<noteq> Some n"
  from True obtain k where "current_name st = Some k"
    "store st = dict_set (queries st) k (strip (join [] (buffer st)))"
    using pending_store by blast
  with True d show ?thesis by (auto simp: finish_def map_of_dict_set)
next
  case False
  then show ?thesis by (simp add: finish_def)
qed

text \<open>Every key was the active name once: the name of a directive line.\<close>

lemma step_keys_names:
  assumes "step st l = Inr st'"
  shows "set (keys (queries st')) \<union> set_option (current_name st')
   \<subseteq> set (keys (queries st)) \<union> set_option (current_name st)
     \<union> {n. is_directive l \<and> directive_name l = Inr n}"
  using assms
proof (cases rule: step_cases)
  case content
  then show ?thesis by auto
next
  case (flush m)
  then obtain k where "current_name st = Some k"
    "store st = dict_set (queries st) k (strip (join [] (buffer st)))"
    using pending_store by blast
  with flush show ?thesis by (auto simp: keys_dict_set split: if_splits)
next
  case (keep m)
  then show ?thesis by auto
qed

lemma run_lines_keys_names:
  "run_lines st ls = Inr st' \<Longrightarrow>
   set (keys (queries st')) \<union> set_option (current_name st')
   \<subseteq> set (keys (queries st)) \<union> set_option (current_name st)
     \<union> {n. \<exists>l\<in>set ls. is_directive l \<and> directive_name l = Inr n}"
proof (induction rule: run_lines_induct)
  case (Nil st)
  show ?case by simp
next
  case (Cons st l ls st1 st')
  from step_keys_names [OF Cons(1)] Cons(3) show ?case
    by (simp add: subset_iff) blast
qed

lemma finish_keys_names:
  "set (keys (finish st)) \<subseteq> set (keys (queries st)) \<union> set_option (current_name st)"
proof (cases "pending st")
  case True
  then obtain k where "current_name st = Some k"
    "store st = dict_set (queries st) k (strip (join [] (buffer st)))"
    using pending_store by blast
  with True show ?thesis by (auto simp: finish_def keys_dict_set split: if_splits)
next
  case False
  then show ?thesis by (simp add: finish_def)
qed

text \<open>Bodies are made of buffered lines, and only lines that are no directives are buffered.\<close>

lemma bodies_dict_set:
  assumes "set b \<subseteq> S"
    and "\<forall>kv\<in>set d. \<exists>xs. set xs \<subseteq> S \<and> snd kv = strip (join [] xs)"
  shows "\<forall>kv\<in>set (dict_set d k (strip (join [] b))).
           \<exists>xs. set xs \<subseteq> S \<and> snd kv = strip (join [] xs)"
proof
  fix kv
  assume "kv \<in> set (dict_set d k (strip (join [] b)))"
  then have "kv = (k, strip (join [] b)) \<or> kv \<in> set d"
    using set_dict_set by blast
  then show "\<exists>xs. set xs \<subseteq> S \<and> snd kv = strip (join [] xs)"
  proof
    assume "kv = (k, strip (join [] b))"
    with assms(1) have "set b \<subseteq> S \<and> snd kv = strip (join [] b)"
      by simp
    then show ?thesis by blast
  next
    assume "kv \<in> set d"
    with assms(2) show ?thesis by blast
  qed
qed

lemma step_bodies:
  assumes "step st l = Inr st'" "\<not> is_directive l \<Longrightarrow> l \<in> S" "set (buffer st) \<subseteq> S"
    and "\<forall>kv\<in>set (queries st). \<exists>xs. set xs \<subseteq> S \<and> snd kv = strip (join [] xs)"
  shows "set (buffer st') \<subseteq> S \<and>
    (\<forall>kv\<in>set (queries st'). \<exists>xs. set xs \<subseteq> S \<and> snd kv = strip (join [] xs))"
  using assms(1)
proof (cases rule: step_cases)
  case content
  with assms(2,3,4) show ?thesis by simp
next
  case (flush m)
  then obtain k where k: "store st = dict_set (queries st) k (strip (join [] (buffer st)))"
    using pending_store by blast
  have "\<forall>kv\<in>set (store st). \<exists>xs. set xs \<subseteq> S \<and> snd kv = strip (join [] xs)"
    unfolding k by (rule bodies_dict_set [OF assms(3,4)])
  with flush show ?thesis by simp
next
  case (keep m)
  with assms(3,4) show ?thesis by simp
qed

lemma run_lines_bodies:
  "run_lines st ls = Inr st' \<Longrightarrow> \<forall>l\<in>set ls. \<not> is_directive l \<longrightarrow> l \<in> S \<Longrightarrow>
   set (buffer st) \<subseteq> S \<Longrightarrow>
   \<forall>kv\<in>set (queries st). \<exists>xs. set xs \<subseteq> S \<and> snd kv = strip (join [] xs) \<Longrightarrow>
   set (buffer st') \<subseteq> S \<and>
   (\<forall>kv\<in>set (queries st'). \<exists>xs. set xs \<subseteq> S \<and> snd kv = strip (join [] xs))"
proof (induction rule: run_lines_induct)
  case (Nil st)
  then show ?case by simp
next
  case (Cons st l ls st1 st')
  from Cons(1,4,5,6) have "set (buffer st1) \<subseteq> S \<and>
    (\<forall>kv\<in>set (queries st1). \<exists>xs. set xs \<subseteq> S \<and> snd kv = strip (join [] xs))"
    by (intro step_bodies) auto
  with Cons(3,4) show ?case by simp
qed

lemma finish_bodies:
  assumes "set (buffer st) \<subseteq> S"
    and "\<forall>kv\<in>set (queries st). \<exists>xs. set xs \<subseteq> S \<and> snd kv = strip (join [] xs)"
  shows "\<forall>kv\<in>set (finish st). \<exists>xs. set xs \<subseteq> S \<and> snd kv = strip (join [] xs)"
proof (cases "pending st")
  case True
  then obtain k where k: "store st = dict_set (queries st) k (strip (join [] (buffer st)))"
    using pending_store by blast
  have "\<forall>kv\<in>set (store st). \<exists>xs. set xs \<subseteq> S \<and> snd kv = strip (join [] xs)"
    unfolding k by (rule bodies_dict_set [OF assms])
  with True show ?thesis by (simp add: finish_def)
next
  case False
  with assms(2) show ?thesis by (simp add: finish_def)
qed

section \<open>From one directive to the next flush\<close>

lemma run_lines_single: "run_lines st [l] = step st l"
  by (simp split: sum.splits)

lemma after_directive:
  assumes "run_lines st0 (pre @ [d]) = Inr st" "is_directive d" "directive_name d = Inr n"
  shows "current_name st = Some n"
proof -
  obtain st1 where st1: "run_lines st0 pre = Inr st1"
    using run_lines_total by blast
  with assms(1) have "step st1 d = Inr st"
    by (simp add: run_lines_snoc)
  with assms(2,3) show ?thesis
    by (auto simp: step_directive)
qed

lemma flush_at_end:
  assumes "current_name st = Some n" "n \<noteq> []" "\<forall>l\<in>set body. \<not> is_directive l"
    and "buffer st @ body \<noteq> []"
  shows "\<exists>st'. run_lines st body = Inr st' \<and> queries st' = queries st \<and>
           current_name st' = Some n \<and>
           finish st' = dict_set (queries st) n (strip (join [] (buffer st @ body)))"
proof -
  let ?st = "st\<lparr>buffer := buffer st @ body\<rparr>"
  from assms(3) have "run_lines st body = Inr ?st"
    by (rule run_lines_content)
  moreover from assms(1,2,4) have "pending ?st"
    by (simp add: pending_def)
  then have "finish ?st = store ?st"
    by (simp add: finish_def)
  with assms(1) have "finish ?st = dict_set (queries st) n (strip (join [] (buffer st @ body)))"
    by (simp add: store_def)
  ultimately show ?thesis
    using assms(1) by simp
qed

lemma flush_at_directive:
  assumes "current_name st = Some n" "n \<noteq> []" "\<forall>l\<in>set body. \<not> is_directive l"
    and "buffer st @ body \<noteq> []" "is_directive d'" "directive_name d' = Inr n'"
  shows "run_lines st (body @ [d']) =
           Inr \<lparr>queries = dict_set (queries st) n (strip (join [] (buffer st @ body))),
                current_name = Some n', buffer = []\<rparr>"
proof -
  let ?st = "st\<lparr>buffer := buffer st @ body\<rparr>"
  from assms(3) have "run_lines st body = Inr ?st"
    by (rule run_lines_content)
  then have "run_lines st (body @ [d']) = step ?st d'"
    by (rule run_lines_snoc)
  moreover from assms(1,2,4) have "pending ?st"
    by (simp add: pending_def)
  moreover from assms(1) have "store ?st = dict_set (queries st) n (strip (join [] (buffer st @ body)))"
    by (simp add: store_def)
  ultimately show ?thesis
    using assms(5,6) by (simp add: step_directive)
qed

text \<open>
  While the active name is empty, nothing is stored and the buffer is never reset:
  directive lines of empty name change nothing, all other lines are appended.
\<close>

lemma run_lines_unnamed:
  "current_name st = Some [] \<Longrightarrow> \<forall>l\<in>set mid. is_directive l \<longrightarrow> directive_name l = Inr [] \<Longrightarrow>
   run_lines st mid = Inr (st\<lparr>buffer := buffer st @ filter (\<lambda>l. \<not> is_directive l) mid\<rparr>)"
proof (induction mid arbitrary: st)
  case Nil
  show ?case by simp
next
  case (Cons l mid)
  show ?case
  proof (cases "is_directive l")
    case True
    with Cons.prems have "directive_name l = Inr []"
      by simp
    with True Cons.prems(1) have "step st l = Inr st"
      by (simp add: step_directive pending_def)
    with True Cons show ?thesis
      by simp
  next
    case False
    then have "step st l = Inr (st\<lparr>buffer := buffer st @ [l]\<rparr>)"
      by (rule step_content)
    with False Cons show ?thesis
      by simp
  qed
qed

text \<open>The entry written by the last flush for a name is the one returned.\<close>

lemma last_flush:
  assumes st: "run_lines init (pre @ [d]) = Inr st"
    and d: "is_directive d" "directive_name d = Inr n" "n \<noteq> []"
    and body: "\<forall>l\<in>set body. \<not> is_directive l" "buffer st @ body \<noteq> []"
    and rest: "rest = [] \<or> is_directive (hd rest)"
      "\<forall>l\<in>set rest. is_directive l \<longrightarrow> directive_name l \<noteq> Inr n"
  shows "\<exists>q. parse_lines (pre @ d # body @ rest) = Inr q \<and> distinct (keys q) \<and>
           map_of q n = Some (strip (join [] (buffer st @ body)))"
proof -
  let ?v = "strip (join [] (buffer st @ body))"
  have cur: "current_name st = Some n"
    using st d(1,2) by (rule after_directive)
  have dist: "distinct (keys (queries st'))" if "run_lines init ls = Inr st'" for ls st'
    using that by (rule run_lines_distinct) (simp add: init_def keys_def)
  have split: "pre @ d # body @ rest = (pre @ [d]) @ body @ rest"
    by simp
  show ?thesis
  proof (cases rest)
    case Nil
    from flush_at_end [OF cur d(3) body] obtain st' where
      st': "run_lines st body = Inr st'" "finish st' = dict_set (queries st) n ?v"
      by blast
    have "run_lines init ((pre @ [d]) @ body) = Inr st'"
      using run_lines_append [OF st, of body] st'(1) by (simp only:)
    then have run: "run_lines init (pre @ d # body @ rest) = Inr st'"
      by (simp add: Nil)
    then have "parse_lines (pre @ d # body @ rest) = Inr (finish st')"
      by (rule parse_lines_run)
    moreover have "distinct (keys (finish st'))"
      using dist [OF run] by (rule finish_distinct)
    moreover have "map_of (finish st') n = Some ?v"
      by (simp add: st'(2) map_of_dict_set)
    ultimately show ?thesis by blast
  next
    case (Cons d' rest')
    with rest have d': "is_directive d'" "directive_name d' \<noteq> Inr n"
      "\<forall>l\<in>set rest'. is_directive l \<longrightarrow> directive_name l \<noteq> Inr n"
      by auto
    from d'(1) obtain n' where n': "directive_name d' = Inr n'"
      using directive_name_total by blast
    let ?st3 = "\<lparr>queries = dict_set (queries st) n ?v, current_name = Some n', buffer = []\<rparr>"
    have r3: "run_lines st (body @ [d']) = Inr ?st3"
      using cur d(3) body d'(1) n' by (rule flush_at_directive)
    obtain st4 where st4: "run_lines ?st3 rest' = Inr st4"
      using run_lines_total by blast
    have "run_lines st ((body @ [d']) @ rest') = Inr st4"
      using run_lines_append [OF r3, of rest'] st4 by (simp only:)
    then have "run_lines init ((pre @ [d]) @ (body @ [d']) @ rest') = Inr st4"
      using run_lines_append [OF st, of "(body @ [d']) @ rest'"] by (simp only:)
    then have run: "run_lines init (pre @ d # body @ rest) = Inr st4"
      by (simp add: Cons)
    then have "parse_lines (pre @ d # body @ rest) = Inr (finish st4)"
      by (rule parse_lines_run)
    moreover have "distinct (keys (finish st4))"
      using dist [OF run] by (rule finish_distinct)
    moreover have "map_of (finish st4) n = Some ?v"
    proof -
      from n' d'(2) have "current_name ?st3 \<noteq> Some n"
        by auto
      with st4 have "map_of (queries st4) n = map_of (queries ?st3) n \<and> current_name st4 \<noteq> Some n"
        using d'(3) by (rule run_lines_other_name)
      then show ?thesis
        by (simp add: finish_other_name map_of_dict_set)
    qed
    ultimately show ?thesis by blast
  qed
qed

section \<open>Content before the first directive\<close>

text \<open>
  C1, as the code has it: lines before the first directive line make no entry of their
  own, since every key of the returned mapping is the name of a directive line; but they
  are not discarded. They stay in the buffer, and when the first directive has a
  non-empty name they are the leading part of the body stored at the first flush, at the
  end of input or at the next directive line.
\<close>

theorem leading_content_kept:
  assumes "\<forall>l\<in>set pre. \<not> is_directive l"
    and "is_directive d" "directive_name d = Inr n" "n \<noteq> []"
    and "\<forall>l\<in>set body. \<not> is_directive l" "pre @ body \<noteq> []"
  shows "(file_lines text = pre @ d # body \<longrightarrow>
            parse_named_queries text = Inr [(n, strip (join [] (pre @ body)))]) \<and>
         (is_directive d' \<longrightarrow> directive_name d' = Inr n' \<longrightarrow>
            run_lines init (pre @ d # body @ [d']) =
              Inr \<lparr>queries = [(n, strip (join [] (pre @ body)))],
                   current_name = Some n', buffer = []\<rparr>) \<and>
         (parse_named_queries text' = Inr q \<longrightarrow>
            set (keys q) \<subseteq>
              {k. \<exists>l\<in>set (file_lines text'). is_directive l \<and> directive_name l = Inr k})"
proof (intro conjI impI)
  let ?st = "\<lparr>queries = [], current_name = Some n, buffer = pre\<rparr>"
  have "run_lines init pre = Inr (init\<lparr>buffer := buffer init @ pre\<rparr>)"
    using assms(1) by (rule run_lines_content)
  then have "run_lines init (pre @ [d]) = step (init\<lparr>buffer := buffer init @ pre\<rparr>) d"
    by (rule run_lines_snoc)
  with assms(2,3) have st: "run_lines init (pre @ [d]) = Inr ?st"
    by (simp add: step_directive pending_def init_def)
  have cur: "current_name ?st = Some n"
    by simp
  have buf: "buffer ?st @ body \<noteq> []"
    using assms(6) by simp
  {
    assume tl: "file_lines text = pre @ d # body"
    from flush_at_end [OF cur assms(4,5) buf] obtain st' where
      st': "run_lines ?st body = Inr st'" "finish st' = [(n, strip (join [] (pre @ body)))]"
      by auto
    have "run_lines init ((pre @ [d]) @ body) = Inr st'"
      using run_lines_append [OF st, of body] st'(1) by (simp only:)
    then have "parse_lines (pre @ d # body) = Inr (finish st')"
      by (simp add: parse_lines_run)
    with tl st'(2) show "parse_named_queries text = Inr [(n, strip (join [] (pre @ body)))]"
      by (simp add: parse_named_queries_def)
  }
  {
    assume d': "is_directive d'" "directive_name d' = Inr n'"
    have "run_lines ?st (body @ [d']) =
        Inr \<lparr>queries = dict_set (queries ?st) n (strip (join [] (buffer ?st @ body))),
             current_name = Some n', buffer = []\<rparr>"
      using cur assms(4,5) buf d' by (rule flush_at_directive)
    then have "run_lines init ((pre @ [d]) @ body @ [d']) =
        Inr \<lparr>queries = [(n, strip (join [] (pre @ body)))], current_name = Some n', buffer = []\<rparr>"
      using run_lines_append [OF st, of "body @ [d']"] by simp
    then show "run_lines init (pre @ d # body @ [d']) =
        Inr \<lparr>queries = [(n, strip (join [] (pre @ body)))], current_name = Some n', buffer = []\<rparr>"
      by simp
  }
  {
    assume q: "parse_named_queries text' = Inr q"
    obtain st' where st': "run_lines init (file_lines text') = Inr st'"
      using run_lines_total by blast
    with q have "q = finish st'"
      by (simp add: parse_named_queries_def parse_lines_def)
    then have "set (keys q) \<subseteq> set (keys (queries st')) \<union> set_option (current_name st')"
      using finish_keys_names by simp
    also have "\<dots> \<subseteq> set (keys (queries init)) \<union> set_option (current_name init)
        \<union> {k. \<exists>l\<in>set (file_lines text'). is_directive l \<and> directive_name l = Inr k}"
      using st' by (rule run_lines_keys_names)
    finally show "set (keys q) \<subseteq>
        {k. \<exists>l\<in>set (file_lines text'). is_directive l \<and> directive_name l = Inr k}"
      by (simp add: init_def keys_def)
  }
qed

theorem leading_content_kept_witness:
  "file_lines (ustr ''junk\<newline>-- name: q1\<newline>SELECT 1;\<newline>'') =
     [ustr ''junk\<newline>''] @ ustr ''-- name: q1\<newline>'' # [ustr ''SELECT 1;\<newline>''] \<and>
   parse_named_queries (ustr ''junk\<newline>-- name: q1\<newline>SELECT 1;\<newline>'') =
     Inr [(ustr ''q1'', strip (join [] ([ustr ''junk\<newline>''] @ [ustr ''SELECT 1;\<newline>''])))] \<and>
   run_lines init ([ustr ''junk\<newline>''] @ ustr ''-- name: q1\<newline>'' # [ustr ''SELECT 1;\<newline>'']
       @ [ustr ''-- name: q2\<newline>'']) =
     Inr \<lparr>queries = [(ustr ''q1'', strip (join [] ([ustr ''junk\<newline>''] @ [ustr ''SELECT 1;\<newline>''])))],
          current_name = Some (ustr ''q2''), buffer = []\<rparr> \<and>
   set (keys [(ustr ''q1'', ustr ''junk\<newline>SELECT 1;'')]) \<subseteq>
     {k. \<exists>l\<in>set (file_lines (ustr ''junk\<newline>-- name: q1\<newline>SELECT 1;\<newline>'')).
            is_directive l \<and> directive_name l = Inr k}"
proof -
  let ?text = "ustr ''junk\<newline>-- name: q1\<newline>SELECT 1;\<newline>''"
  let ?pre = "[ustr ''junk\<newline>'']"
  let ?d = "ustr ''-- name: q1\<newline>''"
  let ?body = "[ustr ''SELECT 1;\<newline>'']"
  let ?d' = "ustr ''-- name: q2\<newline>''"
  have h1: "\<forall>l\<in>set ?pre. \<not> is_directive l"
    by (simp add: evals)
  have h2: "is_directive ?d"
    by (simp add: evals)
  have h3: "directive_name ?d = Inr (ustr ''q1'')"
    by (simp add: evals)
  have h4: "ustr ''q1'' \<noteq> []"
    by (simp add: ustr_def)
  have h5: "\<forall>l\<in>set ?body. \<not> is_directive l"
    by (simp add: evals)
  have h6: "?pre @ ?body \<noteq> []"
    by simp
  have l: "file_lines ?text = ?pre @ ?d # ?body"
    by (simp add: evals)
  have d': "is_directive ?d'" "directive_name ?d' = Inr (ustr ''q2'')"
    by (simp_all add: evals)
  have q: "parse_named_queries ?text = Inr [(ustr ''q1'', ustr ''junk\<newline>SELECT 1;'')]"
    by (simp add: evals)
  from leading_content_kept [OF h1 h2 h3 h4 h5 h6, of ?text ?d' "ustr ''q2''" ?text
      "[(ustr ''q1'', ustr ''junk\<newline>SELECT 1;'')]"] l d' q
  show ?thesis
    by blast
qed

text \<open>
  A line before the first directive is not dropped: it is the first line of the body of
  \<open>q1\<close>.
\<close>

theorem leading_content_counterexample:
  "file_lines (ustr ''junk\<newline>-- name: q1\<newline>SELECT 1;\<newline>'') =
     [ustr ''junk\<newline>'', ustr ''-- name: q1\<newline>'', ustr ''SELECT 1;\<newline>''] \<and>
   \<not> is_directive (ustr ''junk\<newline>'') \<and> is_directive (ustr ''-- name: q1\<newline>'') \<and>
   parse_named_queries (ustr ''junk\<newline>-- name: q1\<newline>SELECT 1;\<newline>'') =
     Inr [(ustr ''q1'', ustr ''junk\<newline>SELECT 1;'')]"
  by (simp add: evals)

section \<open>Repeated names\<close>

lemma step_keeps_other:
  assumes "step st l = Inr st'" "current_name st \<noteq> Some n"
  shows "map_of (queries st') n = map_of (queries st) n"
  using assms(1)
proof (cases rule: step_cases)
  case content
  then show ?thesis by simp
next
  case (flush m)
  then obtain k where "current_name st = Some k"
    "store st = dict_set (queries st) k (strip (join [] (buffer st)))"
    using pending_store by blast
  with flush assms(2) show ?thesis by (auto simp: map_of_dict_set)
next
  case (keep m)
  then show ?thesis by simp
qed

text \<open>With an empty buffer, the flush that follows a directive stores nothing.\<close>

lemma no_flush:
  assumes st: "run_lines init (pre @ [d]) = Inr st" and buf: "buffer st = []"
    and rest: "rest = [] \<or> is_directive (hd rest)"
      "\<forall>l\<in>set rest. is_directive l \<longrightarrow> directive_name l \<noteq> Inr n"
  shows "\<exists>q. parse_lines (pre @ d # rest) = Inr q \<and> distinct (keys q) \<and>
           map_of q n = map_of (queries st) n"
proof -
  have dist: "distinct (keys (queries st'))" if "run_lines init ls = Inr st'" for ls st'
    using that by (rule run_lines_distinct) (simp add: init_def keys_def)
  from buf have np: "\<not> pending st"
    by (rule not_pending_empty)
  show ?thesis
  proof (cases rest)
    case Nil
    from st have run: "run_lines init (pre @ d # rest) = Inr st"
      by (simp add: Nil)
    then have "parse_lines (pre @ d # rest) = Inr (finish st)"
      by (rule parse_lines_run)
    moreover have "distinct (keys (finish st))"
      using dist [OF run] by (rule finish_distinct)
    moreover from np have "map_of (finish st) n = map_of (queries st) n"
      by (simp add: finish_def)
    ultimately show ?thesis by blast
  next
    case (Cons d' rest')
    with rest have d': "is_directive d'" "directive_name d' \<noteq> Inr n"
      "\<forall>l\<in>set rest'. is_directive l \<longrightarrow> directive_name l \<noteq> Inr n"
      by auto
    from d'(1) obtain n' where n': "directive_name d' = Inr n'"
      using directive_name_total by blast
    let ?st1 = "st\<lparr>current_name := Some n'\<rparr>"
    from d'(1) n' np have "step st d' = Inr ?st1"
      by (simp add: step_directive)
    then have r1: "run_lines st [d'] = Inr ?st1"
      by (simp add: run_lines_single)
    obtain st2 where st2: "run_lines ?st1 rest' = Inr st2"
      using run_lines_total by blast
    have "run_lines st ([d'] @ rest') = Inr st2"
      using run_lines_append [OF r1, of rest'] st2 by (simp only:)
    then have "run_lines init ((pre @ [d]) @ [d'] @ rest') = Inr st2"
      using run_lines_append [OF st, of "[d'] @ rest'"] by (simp only:)
    then have run: "run_lines init (pre @ d # rest) = Inr st2"
      by (simp add: Cons)
    then have "parse_lines (pre @ d # rest) = Inr (finish st2)"
      by (rule parse_lines_run)
    moreover have "distinct (keys (finish st2))"
      using dist [OF run] by (rule finish_distinct)
    moreover have "map_of (finish st2) n = map_of (queries st) n"
    proof -
      from n' d'(2) have "current_name ?st1 \<noteq> Some n"
        by auto
      with st2 have "map_of (queries st2) n = map_of (queries ?st1) n \<and> current_name st2 \<noteq> Some n"
        using d'(3) by (rule run_lines_other_name)
      then show ?thesis
        by (simp add: finish_other_name)
    qed
    ultimately show ?thesis by blast
  qed
qed

text \<open>
  C2, as the code has it: the mapping never has two entries for one name. Let \<open>d\<close> be
  the last directive line with the non-empty name \<open>n\<close>, \<open>body\<close> the lines up to the next
  directive line or the end of input, and \<open>st\<close> the variables once \<open>d\<close> has been read.
  If the buffer of that flush, the lines still held in \<open>st\<close> followed by \<open>body\<close>, is not
  empty, the entry for \<open>n\<close> is that buffer joined and stripped. If it is empty, the flush
  stores nothing, and \<open>n\<close> has the entry that an earlier occurrence left, or none.
\<close>

theorem duplicate_name_last_flush:
  assumes "file_lines text = pre @ d # body @ rest"
    and "is_directive d" "directive_name d = Inr n" "n \<noteq> []"
    and "\<forall>l\<in>set body. \<not> is_directive l"
    and "rest = [] \<or> is_directive (hd rest)"
    and "\<forall>l\<in>set rest. is_directive l \<longrightarrow> directive_name l \<noteq> Inr n"
    and "run_lines init (pre @ [d]) = Inr st"
  shows "\<exists>q. parse_named_queries text = Inr q \<and> distinct (keys q) \<and>
           (buffer st @ body \<noteq> [] \<longrightarrow>
              map_of q n = Some (strip (join [] (buffer st @ body)))) \<and>
           (buffer st @ body = [] \<longrightarrow> map_of q n = map_of (queries st) n)"
proof (cases "buffer st @ body = []")
  case False
  from last_flush [OF assms(8,2,3,4,5) False assms(6,7)] obtain q where
    "parse_lines (pre @ d # body @ rest) = Inr q" "distinct (keys q)"
    "map_of q n = Some (strip (join [] (buffer st @ body)))"
    by blast
  with assms(1) False have "parse_named_queries text = Inr q \<and> distinct (keys q) \<and>
      (buffer st @ body \<noteq> [] \<longrightarrow> map_of q n = Some (strip (join [] (buffer st @ body)))) \<and>
      (buffer st @ body = [] \<longrightarrow> map_of q n = map_of (queries st) n)"
    by (auto simp: parse_named_queries_def)
  then show ?thesis ..
next
  case True
  then have e: "buffer st = []" "body = []"
    by simp_all
  from no_flush [OF assms(8) e(1) assms(6,7)] obtain q where
    "parse_lines (pre @ d # rest) = Inr q" "distinct (keys q)"
    "map_of q n = map_of (queries st) n"
    by blast
  with assms(1) e have "parse_named_queries text = Inr q \<and> distinct (keys q) \<and>
      (buffer st @ body \<noteq> [] \<longrightarrow> map_of q n = Some (strip (join [] (buffer st @ body)))) \<and>
      (buffer st @ body = [] \<longrightarrow> map_of q n = map_of (queries st) n)"
    by (auto simp: parse_named_queries_def)
  then show ?thesis ..
qed

theorem duplicate_name_last_flush_witness:
  "(\<exists>q. parse_named_queries (ustr ''-- name: a\<newline>X\<newline>-- name: b\<newline>Y\<newline>-- name: a\<newline>Z\<newline>'') = Inr q \<and>
        distinct (keys q) \<and> map_of q (ustr ''a'') = Some (ustr ''Z'')) \<and>
   (\<exists>q. parse_named_queries (ustr ''-- name: a\<newline>X\<newline>-- name: a\<newline>'') = Inr q \<and>
        distinct (keys q) \<and> map_of q (ustr ''a'') = Some (ustr ''X''))"
proof
  let ?text = "ustr ''-- name: a\<newline>X\<newline>-- name: b\<newline>Y\<newline>-- name: a\<newline>Z\<newline>''"
  let ?a = "ustr ''-- name: a\<newline>''"
  let ?pre = "[?a, ustr ''X\<newline>'', ustr ''-- name: b\<newline>'', ustr ''Y\<newline>'']"
  let ?body = "[ustr ''Z\<newline>'']"
  let ?st = "\<lparr>queries = [(ustr ''a'', ustr ''X''), (ustr ''b'', ustr ''Y'')],
              current_name = Some (ustr ''a''), buffer = []\<rparr>"
  have h1: "file_lines ?text = ?pre @ ?a # ?body @ []"
    by (simp add: evals)
  have h2: "is_directive ?a" and h3: "directive_name ?a = Inr (ustr ''a'')"
    and h4: "ustr ''a'' \<noteq> []"
    by (simp_all add: evals)
  have h5: "\<forall>l\<in>set ?body. \<not> is_directive l"
    by (simp add: evals)
  have h6: "[] = [] \<or> is_directive (hd ([] :: pystr list))"
    and h7: "\<forall>l\<in>set ([] :: pystr list). is_directive l \<longrightarrow> directive_name l \<noteq> Inr (ustr ''a'')"
    by simp_all
  have h8: "run_lines init (?pre @ [?a]) = Inr ?st"
    by (simp add: evals)
  have v: "buffer ?st @ ?body \<noteq> []"
    "strip (join [] (buffer ?st @ ?body)) = ustr ''Z''"
    by (simp_all add: evals)
  from duplicate_name_last_flush [OF h1 h2 h3 h4 h5 h6 h7 h8] v
  show "\<exists>q. parse_named_queries ?text = Inr q \<and> distinct (keys q) \<and>
          map_of q (ustr ''a'') = Some (ustr ''Z'')"
    by auto
next
  let ?text = "ustr ''-- name: a\<newline>X\<newline>-- name: a\<newline>''"
  let ?a = "ustr ''-- name: a\<newline>''"
  let ?pre = "[?a, ustr ''X\<newline>'']"
  let ?st = "\<lparr>queries = [(ustr ''a'', ustr ''X'')], current_name = Some (ustr ''a''), buffer = []\<rparr>"
  have h1: "file_lines ?text = ?pre @ ?a # [] @ []"
    by (simp add: evals)
  have h2: "is_directive ?a" and h3: "directive_name ?a = Inr (ustr ''a'')"
    and h4: "ustr ''a'' \<noteq> []"
    by (simp_all add: evals)
  have h5: "\<forall>l\<in>set ([] :: pystr list). \<not> is_directive l"
    by simp
  have h6: "[] = [] \<or> is_directive (hd ([] :: pystr list))"
    and h7: "\<forall>l\<in>set ([] :: pystr list). is_directive l \<longrightarrow> directive_name l \<noteq> Inr (ustr ''a'')"
    by simp_all
  have h8: "run_lines init (?pre @ [?a]) = Inr ?st"
    by (simp add: evals)
  have v: "buffer ?st @ [] = []" "map_of (queries ?st) (ustr ''a'') = Some (ustr ''X'')"
    by simp_all
  from duplicate_name_last_flush [OF h1 h2 h3 h4 h5 h6 h7 h8] v
  show "\<exists>q. parse_named_queries ?text = Inr q \<and> distinct (keys q) \<and>
          map_of q (ustr ''a'') = Some (ustr ''X'')"
    by auto
qed

text \<open>
  A name declared twice whose last occurrence is followed by nothing: the entry holds the
  body of the first occurrence; and when neither occurrence is followed by a line, the
  name has no entry.
\<close>

theorem duplicate_name_counterexample:
  "file_lines (ustr ''-- name: a\<newline>X\<newline>-- name: a\<newline>'') =
     [ustr ''-- name: a\<newline>'', ustr ''X\<newline>'', ustr ''-- name: a\<newline>''] \<and>
   is_directive (ustr ''-- name: a\<newline>'') \<and>
   directive_name (ustr ''-- name: a\<newline>'') = Inr (ustr ''a'') \<and>
   \<not> is_directive (ustr ''X\<newline>'') \<and>
   parse_named_queries (ustr ''-- name: a\<newline>X\<newline>-- name: a\<newline>'') = Inr [(ustr ''a'', ustr ''X'')] \<and>
   file_lines (ustr ''-- name: a\<newline>-- name: a\<newline>'') =
     [ustr ''-- name: a\<newline>'', ustr ''-- name: a\<newline>''] \<and>
   parse_named_queries (ustr ''-- name: a\<newline>-- name: a\<newline>'') = Inr []"
  by (simp add: evals)

section \<open>A directive right after a directive\<close>

text \<open>
  C4, as the code has it: when a directive line is immediately followed by another
  directive line and the buffer is empty once the first has been read (nothing was
  carried over from before it), reaching the second directive stores nothing; and when no
  other directive line of the file has the first one's name, that name is not a key of
  the result. For \<open>-- name: only\<close> immediately followed by \<open>-- name: next\<close>, the key
  \<open>only\<close> is absent and \<open>next\<close> maps to the stripped content after it.
\<close>

theorem adjacent_directives:
  assumes "file_lines text = pre @ d1 # d2 # rest"
    and "is_directive d1" "directive_name d1 = Inr n1" "is_directive d2"
    and "run_lines init (pre @ [d1]) = Inr st" "buffer st = []"
  shows "(\<exists>st2. run_lines init (pre @ [d1, d2]) = Inr st2 \<and> queries st2 = queries st \<and>
            buffer st2 = []) \<and>
         ((\<forall>l\<in>set (pre @ d2 # rest). is_directive l \<longrightarrow> directive_name l \<noteq> Inr n1) \<longrightarrow>
            (\<exists>q. parse_named_queries text = Inr q \<and> n1 \<notin> set (keys q))) \<and>
         parse_named_queries (ustr ''-- name: only\<newline>-- name: next\<newline>SELECT 2;\<newline>'') =
           Inr [(ustr ''next'', ustr ''SELECT 2;'')]"
proof (intro conjI impI)
  from assms(4) obtain n2 where n2: "directive_name d2 = Inr n2"
    using directive_name_total by blast
  from assms(6) have np: "\<not> pending st"
    by (rule not_pending_empty)
  with assms(4) n2 have "step st d2 = Inr (st\<lparr>current_name := Some n2\<rparr>)"
    by (simp add: step_directive)
  then have "run_lines st [d2] = Inr (st\<lparr>current_name := Some n2\<rparr>)"
    by (simp add: run_lines_single)
  then have "run_lines init ((pre @ [d1]) @ [d2]) = Inr (st\<lparr>current_name := Some n2\<rparr>)"
    using run_lines_append [OF assms(5), of "[d2]"] by (simp only:)
  then have "run_lines init (pre @ [d1, d2]) = Inr (st\<lparr>current_name := Some n2\<rparr>)"
    by simp
  with assms(6) show "\<exists>st2. run_lines init (pre @ [d1, d2]) = Inr st2 \<and>
      queries st2 = queries st \<and> buffer st2 = []"
    by simp
next
  assume other: "\<forall>l\<in>set (pre @ d2 # rest). is_directive l \<longrightarrow> directive_name l \<noteq> Inr n1"
  obtain st0 where st0: "run_lines init pre = Inr st0"
    using run_lines_total by blast
  have "current_name init \<noteq> Some n1"
    by (simp add: init_def)
  with st0 have "map_of (queries st0) n1 = map_of (queries init) n1 \<and> current_name st0 \<noteq> Some n1"
    by (rule run_lines_other_name) (use other in simp)
  then have a: "map_of (queries st0) n1 = None" "current_name st0 \<noteq> Some n1"
    by (simp_all add: init_def)
  from st0 assms(5) have "step st0 d1 = Inr st"
    by (simp add: run_lines_snoc)
  then have "map_of (queries st) n1 = map_of (queries st0) n1"
    using a(2) by (rule step_keeps_other)
  with a(1) have none: "map_of (queries st) n1 = None"
    by simp
  have "d2 # rest = [] \<or> is_directive (hd (d2 # rest))"
    using assms(4) by simp
  moreover have "\<forall>l\<in>set (d2 # rest). is_directive l \<longrightarrow> directive_name l \<noteq> Inr n1"
    using other by simp
  ultimately obtain q where "parse_lines (pre @ d1 # d2 # rest) = Inr q"
    "map_of q n1 = map_of (queries st) n1"
    using no_flush [OF assms(5,6)] by blast
  with none have "map_of q n1 = None"
    by simp
  then have "n1 \<notin> set (keys q)"
    by (rule map_of_keys [THEN iffD1])
  with \<open>parse_lines (pre @ d1 # d2 # rest) = Inr q\<close> assms(1)
  have "parse_named_queries text = Inr q \<and> n1 \<notin> set (keys q)"
    by (simp add: parse_named_queries_def)
  then show "\<exists>q. parse_named_queries text = Inr q \<and> n1 \<notin> set (keys q)" ..
next
  show "parse_named_queries (ustr ''-- name: only\<newline>-- name: next\<newline>SELECT 2;\<newline>'') =
      Inr [(ustr ''next'', ustr ''SELECT 2;'')]"
    by (simp add: evals)
qed

theorem adjacent_directives_witness:
  "(\<exists>st2. run_lines init ([] @ [ustr ''-- name: only\<newline>'', ustr ''-- name: next\<newline>'']) = Inr st2 \<and>
      queries st2 = [] \<and> buffer st2 = []) \<and>
   (\<exists>q. parse_named_queries (ustr ''-- name: only\<newline>-- name: next\<newline>SELECT 2;\<newline>'') = Inr q \<and>
      ustr ''only'' \<notin> set (keys q))"
proof -
  let ?text = "ustr ''-- name: only\<newline>-- name: next\<newline>SELECT 2;\<newline>''"
  let ?d1 = "ustr ''-- name: only\<newline>''"
  let ?d2 = "ustr ''-- name: next\<newline>''"
  let ?rest = "[ustr ''SELECT 2;\<newline>'']"
  let ?st = "\<lparr>queries = [], current_name = Some (ustr ''only''), buffer = []\<rparr>"
  have h1: "file_lines ?text = [] @ ?d1 # ?d2 # ?rest"
    by (simp add: evals)
  have h2: "is_directive ?d1" and h3: "directive_name ?d1 = Inr (ustr ''only'')"
    and h4: "is_directive ?d2"
    by (simp_all add: evals)
  have h5: "run_lines init ([] @ [?d1]) = Inr ?st"
    by (simp add: evals)
  have h6: "buffer ?st = []"
    by simp
  have o: "\<forall>l\<in>set ([] @ ?d2 # ?rest). is_directive l \<longrightarrow> directive_name l \<noteq> Inr (ustr ''only'')"
    by (simp add: evals)
  from adjacent_directives [OF h1 h2 h3 h4 h5 h6] o
  have "(\<exists>st2. run_lines init ([] @ [?d1, ?d2]) = Inr st2 \<and> queries st2 = queries ?st \<and>
           buffer st2 = []) \<and>
        (\<exists>q. parse_named_queries ?text = Inr q \<and> ustr ''only'' \<notin> set (keys q))"
    by blast
  then show ?thesis
    by (simp only: state.select_convs)
qed

text \<open>
  With a line before the two adjacent directives, the first of them gets an entry: that
  line is its body.
\<close>

theorem adjacent_directives_counterexample:
  "file_lines (ustr ''junk\<newline>-- name: only\<newline>-- name: next\<newline>SELECT 2;\<newline>'') =
     [ustr ''junk\<newline>'', ustr ''-- name: only\<newline>'', ustr ''-- name: next\<newline>'', ustr ''SELECT 2;\<newline>''] \<and>
   is_directive (ustr ''-- name: only\<newline>'') \<and>
   directive_name (ustr ''-- name: only\<newline>'') = Inr (ustr ''only'') \<and>
   is_directive (ustr ''-- name: next\<newline>'') \<and>
   parse_named_queries (ustr ''junk\<newline>-- name: only\<newline>-- name: next\<newline>SELECT 2;\<newline>'') =
     Inr [(ustr ''only'', ustr ''junk''), (ustr ''next'', ustr ''SELECT 2;'')]"
  by (simp add: evals)

section \<open>Blank bodies\<close>

lemma strip_blank_lines:
  assumes "\<forall>l\<in>set ls. \<forall>c\<in>set l. isspace c"
  shows "strip (join [] ls) = []"
proof -
  from assms have "\<forall>c\<in>set (concat ls). isspace c"
    by auto
  then show ?thesis
    by (simp only: join_empty strip_all_space)
qed

text \<open>
  C9, as the code has it: let a directive line with a non-empty name be followed by at
  least one line, all of them blank or of whitespace only, up to the next directive line
  or the end of input, and let the buffer hold no line with anything but whitespace once
  the directive has been read (in particular, let it be empty). Then the flush stores an
  entry for that name whose body is the empty string; it is the entry of the result when no
  later directive line has the same name.
\<close>

theorem blank_body_empty:
  assumes "file_lines text = pre @ d # ws @ rest"
    and "is_directive d" "directive_name d = Inr n" "n \<noteq> []"
    and "ws \<noteq> []" "\<forall>l\<in>set ws. \<forall>c\<in>set l. isspace c"
    and "rest = [] \<or> is_directive (hd rest)"
    and "run_lines init (pre @ [d]) = Inr st"
    and "\<forall>l\<in>set (buffer st). \<forall>c\<in>set l. isspace c"
  shows "(rest = [] \<longrightarrow> parse_named_queries text = Inr (dict_set (queries st) n [])) \<and>
         (rest \<noteq> [] \<longrightarrow>
            (\<exists>st'. run_lines init (pre @ d # ws @ [hd rest]) = Inr st' \<and>
               queries st' = dict_set (queries st) n [] \<and> buffer st' = [])) \<and>
         ((\<forall>l\<in>set rest. is_directive l \<longrightarrow> directive_name l \<noteq> Inr n) \<longrightarrow>
            (\<exists>q. parse_named_queries text = Inr q \<and> map_of q n = Some []))"
proof (intro conjI impI)
  have cur: "current_name st = Some n"
    using assms(8,2,3) by (rule after_directive)
  have nd: "\<forall>l\<in>set ws. \<not> is_directive l"
    using assms(6) blank_not_directive by blast
  have ne: "buffer st @ ws \<noteq> []"
    using assms(5) by simp
  have "\<forall>l\<in>set (buffer st @ ws). \<forall>c\<in>set l. isspace c"
    using assms(6,9) by auto
  then have v: "strip (join [] (buffer st @ ws)) = []"
    by (rule strip_blank_lines)
  {
    assume e: "rest = []"
    from flush_at_end [OF cur assms(4) nd ne] v obtain st' where
      st': "run_lines st ws = Inr st'" "finish st' = dict_set (queries st) n []"
      by auto
    have "run_lines init ((pre @ [d]) @ ws) = Inr st'"
      using run_lines_append [OF assms(8), of ws] st'(1) by (simp only:)
    then have "parse_lines (pre @ d # ws @ rest) = Inr (finish st')"
      using e by (simp add: parse_lines_run)
    with assms(1) st'(2) show "parse_named_queries text = Inr (dict_set (queries st) n [])"
      by (simp add: parse_named_queries_def)
  }
  {
    assume "rest \<noteq> []"
    with assms(7) have d': "is_directive (hd rest)"
      by simp
    then obtain n' where n': "directive_name (hd rest) = Inr n'"
      using directive_name_total by blast
    have "run_lines st (ws @ [hd rest]) =
        Inr \<lparr>queries = dict_set (queries st) n (strip (join [] (buffer st @ ws))),
             current_name = Some n', buffer = []\<rparr>"
      using cur assms(4) nd ne d' n' by (rule flush_at_directive)
    then have "run_lines init ((pre @ [d]) @ ws @ [hd rest]) =
        Inr \<lparr>queries = dict_set (queries st) n [], current_name = Some n', buffer = []\<rparr>"
      using run_lines_append [OF assms(8), of "ws @ [hd rest]"] v by simp
    then show "\<exists>st'. run_lines init (pre @ d # ws @ [hd rest]) = Inr st' \<and>
        queries st' = dict_set (queries st) n [] \<and> buffer st' = []"
      by simp
  }
  {
    assume "\<forall>l\<in>set rest. is_directive l \<longrightarrow> directive_name l \<noteq> Inr n"
    with last_flush [OF assms(8,2,3,4) nd ne assms(7)] v assms(1)
    show "\<exists>q. parse_named_queries text = Inr q \<and> map_of q n = Some []"
      by (auto simp: parse_named_queries_def)
  }
qed

theorem blank_body_empty_witness:
  "parse_named_queries (ustr ''-- name: a\<newline>  \<newline>\<newline>'') = Inr (dict_set [] (ustr ''a'') []) \<and>
   (\<exists>st'. run_lines init ([] @ ustr ''-- name: a\<newline>'' # [ustr ''  \<newline>''] @ [ustr ''-- name: b\<newline>''])
        = Inr st' \<and> queries st' = dict_set [] (ustr ''a'') [] \<and> buffer st' = []) \<and>
   (\<exists>q. parse_named_queries (ustr ''-- name: a\<newline>  \<newline>-- name: b\<newline>SELECT 2;\<newline>'') = Inr q \<and>
        map_of q (ustr ''a'') = Some [])"
proof (intro conjI)
  let ?d = "ustr ''-- name: a\<newline>''"
  let ?st = "\<lparr>queries = [], current_name = Some (ustr ''a''), buffer = []\<rparr>"
  have d: "is_directive ?d" "directive_name ?d = Inr (ustr ''a'')" "ustr ''a'' \<noteq> []"
    by (simp_all add: evals)
  have st: "run_lines init ([] @ [?d]) = Inr ?st"
    by (simp add: evals)
  have b: "\<forall>l\<in>set (buffer ?st). \<forall>c\<in>set l. isspace c"
    by simp
  {
    let ?text = "ustr ''-- name: a\<newline>  \<newline>\<newline>''"
    let ?ws = "[ustr ''  \<newline>'', ustr ''\<newline>'']"
    have l: "file_lines ?text = [] @ ?d # ?ws @ []"
      by (simp add: evals)
    have ws: "?ws \<noteq> []" "\<forall>l\<in>set ?ws. \<forall>c\<in>set l. isspace c"
      by (simp_all add: evals)
    have r: "[] = [] \<or> is_directive (hd ([] :: pystr list))"
      by simp
    from blank_body_empty [OF l d ws r st b]
    show "parse_named_queries ?text = Inr (dict_set [] (ustr ''a'') [])"
      by (simp only: state.select_convs)
  }
  let ?text = "ustr ''-- name: a\<newline>  \<newline>-- name: b\<newline>SELECT 2;\<newline>''"
  let ?ws = "[ustr ''  \<newline>'']"
  let ?rest = "[ustr ''-- name: b\<newline>'', ustr ''SELECT 2;\<newline>'']"
  have l: "file_lines ?text = [] @ ?d # ?ws @ ?rest"
    by (simp add: evals)
  have ws: "?ws \<noteq> []" "\<forall>l\<in>set ?ws. \<forall>c\<in>set l. isspace c"
    by (simp_all add: evals)
  have r: "?rest = [] \<or> is_directive (hd ?rest)"
    by (simp add: evals)
  have o: "\<forall>l\<in>set ?rest. is_directive l \<longrightarrow> directive_name l \<noteq> Inr (ustr ''a'')"
    by (simp add: evals)
  have ne: "?rest \<noteq> []" and hd: "hd ?rest = ustr ''-- name: b\<newline>''"
    by simp_all
  note inst = blank_body_empty [OF l d ws r st b]
  from inst ne have "\<exists>st'. run_lines init ([] @ ?d # ?ws @ [hd ?rest]) = Inr st' \<and>
      queries st' = dict_set (queries ?st) (ustr ''a'') [] \<and> buffer st' = []"
    by blast
  then show "\<exists>st'. run_lines init ([] @ ?d # ?ws @ [ustr ''-- name: b\<newline>'']) = Inr st' \<and>
      queries st' = dict_set [] (ustr ''a'') [] \<and> buffer st' = []"
    by (simp only: hd state.select_convs)
  from inst o show "\<exists>q. parse_named_queries ?text = Inr q \<and> map_of q (ustr ''a'') = Some []"
    by blast
qed

text \<open>
  A directive of empty name followed by a blank line stores nothing; and after a leading
  line, the body stored for a directive followed by a blank line is that line, not the
  empty string.
\<close>

theorem blank_body_counterexample:
  "file_lines (ustr ''-- name:\<newline>\<newline>'') = [ustr ''-- name:\<newline>'', ustr ''\<newline>''] \<and>
   is_directive (ustr ''-- name:\<newline>'') \<and> directive_name (ustr ''-- name:\<newline>'') = Inr [] \<and>
   parse_named_queries (ustr ''-- name:\<newline>\<newline>'') = Inr [] \<and>
   file_lines (ustr ''junk\<newline>-- name: a\<newline>\<newline>'') =
     [ustr ''junk\<newline>'', ustr ''-- name: a\<newline>'', ustr ''\<newline>''] \<and>
   is_directive (ustr ''-- name: a\<newline>'') \<and> directive_name (ustr ''-- name: a\<newline>'') = Inr (ustr ''a'') \<and>
   parse_named_queries (ustr ''junk\<newline>-- name: a\<newline>\<newline>'') = Inr [(ustr ''a'', ustr ''junk'')]"
  by (simp add: evals)

section \<open>Directives of empty name\<close>

text \<open>
  C10: the empty string is never a key of the result. After a directive line \<open>d0\<close> of
  empty name the buffer is neither flushed nor reset: over the following lines \<open>mid\<close>,
  content lines and further directive lines of empty name, the content lines are appended
  to what the buffer held when \<open>d0\<close> had been read. If the input ends there, they are
  dropped, and the result is the mapping as it was at \<open>d0\<close>. If a directive line \<open>d1\<close> of
  non-empty name follows, they are part of the body stored for \<open>d1\<close> at the next flush, be
  it at the end of input or at a further directive line \<open>d2\<close>.
\<close>

theorem empty_name_directive:
  assumes "is_directive d0" "directive_name d0 = Inr []"
    and "run_lines init (pre @ [d0]) = Inr st"
    and "\<forall>l\<in>set mid. is_directive l \<longrightarrow> directive_name l = Inr []"
  shows "(parse_named_queries text' = Inr q \<longrightarrow> [] \<notin> set (keys q)) \<and>
    run_lines init (pre @ d0 # mid) =
      Inr (st\<lparr>buffer := buffer st @ filter (\<lambda>l. \<not> is_directive l) mid\<rparr>) \<and>
    (file_lines text = pre @ d0 # mid \<longrightarrow> parse_named_queries text = Inr (queries st)) \<and>
    (is_directive d1 \<longrightarrow> directive_name d1 = Inr n1 \<longrightarrow> n1 \<noteq> [] \<longrightarrow>
     (\<forall>l\<in>set body. \<not> is_directive l) \<longrightarrow>
     buffer st @ filter (\<lambda>l. \<not> is_directive l) mid @ body \<noteq> [] \<longrightarrow>
       (file_lines text = pre @ d0 # mid @ d1 # body \<longrightarrow>
          parse_named_queries text =
            Inr (dict_set (queries st) n1
                  (strip (join [] (buffer st @ filter (\<lambda>l. \<not> is_directive l) mid @ body))))) \<and>
       (is_directive d2 \<longrightarrow>
          (\<exists>st'. run_lines init (pre @ d0 # mid @ d1 # body @ [d2]) = Inr st' \<and>
             queries st' =
               dict_set (queries st) n1
                 (strip (join [] (buffer st @ filter (\<lambda>l. \<not> is_directive l) mid @ body))) \<and>
             buffer st' = [])))"
proof -
  let ?kept = "filter (\<lambda>l. \<not> is_directive l) mid"
  let ?st1 = "st\<lparr>buffer := buffer st @ ?kept\<rparr>"
  have cur: "current_name st = Some []"
    using assms(3,1,2) by (rule after_directive)
  have keys: "[] \<notin> set (keys q)" if "parse_named_queries text' = Inr q"
  proof -
    obtain st' where st': "run_lines init (file_lines text') = Inr st'"
      using run_lines_total by blast
    then have "[] \<notin> set (keys (queries st'))"
      by (rule run_lines_no_empty_key) (simp add: init_def keys_def)
    then have "[] \<notin> set (keys (finish st'))"
      by (rule finish_no_empty_key)
    with that st' show ?thesis
      by (simp add: parse_named_queries_def parse_lines_def)
  qed
  have "run_lines st mid = Inr ?st1"
    using cur assms(4) by (rule run_lines_unnamed)
  then have "run_lines init ((pre @ [d0]) @ mid) = Inr ?st1"
    using run_lines_append [OF assms(3), of mid] by (simp only:)
  then have mid: "run_lines init (pre @ d0 # mid) = Inr ?st1"
    by simp
  have dropped: "parse_named_queries text = Inr (queries st)"
    if "file_lines text = pre @ d0 # mid"
  proof -
    from cur have "\<not> pending ?st1"
      by (simp add: pending_def)
    then have "finish ?st1 = queries st"
      by (simp add: finish_def)
    with mid that show ?thesis
      by (simp add: parse_named_queries_def parse_lines_def)
  qed
  have named:
    "(file_lines text = pre @ d0 # mid @ d1 # body \<longrightarrow>
        parse_named_queries text =
          Inr (dict_set (queries st) n1 (strip (join [] (buffer st @ ?kept @ body))))) \<and>
     (is_directive d2 \<longrightarrow>
        (\<exists>st'. run_lines init (pre @ d0 # mid @ d1 # body @ [d2]) = Inr st' \<and>
           queries st' = dict_set (queries st) n1 (strip (join [] (buffer st @ ?kept @ body))) \<and>
           buffer st' = []))"
    if d1: "is_directive d1" "directive_name d1 = Inr n1" "n1 \<noteq> []"
      and body: "\<forall>l\<in>set body. \<not> is_directive l" "buffer st @ ?kept @ body \<noteq> []"
  proof (intro conjI impI)
    let ?st2 = "?st1\<lparr>current_name := Some n1\<rparr>"
    from cur have "\<not> pending ?st1"
      by (simp add: pending_def)
    with d1(1,2) have "step ?st1 d1 = Inr ?st2"
      by (simp add: step_directive)
    with mid have "run_lines init ((pre @ d0 # mid) @ [d1]) = Inr ?st2"
      by (simp only: run_lines_snoc)
    then have st2: "run_lines init (pre @ d0 # mid @ [d1]) = Inr ?st2"
      by simp
    have cur2: "current_name ?st2 = Some n1"
      by simp
    have buf2: "buffer ?st2 @ body \<noteq> []"
      using body(2) by simp
    {
      assume l: "file_lines text = pre @ d0 # mid @ d1 # body"
      from flush_at_end [OF cur2 d1(3) body(1) buf2] obtain st' where
        st': "run_lines ?st2 body = Inr st'"
          "finish st' = dict_set (queries st) n1 (strip (join [] (buffer st @ ?kept @ body)))"
        by auto
      have "run_lines init ((pre @ d0 # mid @ [d1]) @ body) = Inr st'"
        using run_lines_append [OF st2, of body] st'(1) by (simp only:)
      then have "parse_lines (pre @ d0 # mid @ d1 # body) = Inr (finish st')"
        by (simp add: parse_lines_run)
      with l st'(2) show "parse_named_queries text =
          Inr (dict_set (queries st) n1 (strip (join [] (buffer st @ ?kept @ body))))"
        by (simp add: parse_named_queries_def)
    }
    {
      assume d2: "is_directive d2"
      then obtain n2 where n2: "directive_name d2 = Inr n2"
        using directive_name_total by blast
      have "run_lines ?st2 (body @ [d2]) =
          Inr \<lparr>queries = dict_set (queries ?st2) n1 (strip (join [] (buffer ?st2 @ body))),
               current_name = Some n2, buffer = []\<rparr>"
        using cur2 d1(3) body(1) buf2 d2 n2 by (rule flush_at_directive)
      then have "run_lines init ((pre @ d0 # mid @ [d1]) @ body @ [d2]) =
          Inr \<lparr>queries = dict_set (queries ?st2) n1 (strip (join [] (buffer ?st2 @ body))),
               current_name = Some n2, buffer = []\<rparr>"
        using run_lines_append [OF st2, of "body @ [d2]"] by (simp only:)
      then show "\<exists>st'. run_lines init (pre @ d0 # mid @ d1 # body @ [d2]) = Inr st' \<and>
          queries st' = dict_set (queries st) n1 (strip (join [] (buffer st @ ?kept @ body))) \<and>
          buffer st' = []"
        by simp
    }
  qed
  from keys mid dropped named show ?thesis
    by blast
qed

theorem empty_name_directive_witness:
  "[] \<notin> set (keys [(ustr ''x'', ustr ''A\<newline>B'')]) \<and>
   run_lines init ([] @ ustr ''-- name:\<newline>'' # [ustr ''A\<newline>'']) =
     Inr \<lparr>queries = [], current_name = Some [], buffer = [ustr ''A\<newline>'']\<rparr> \<and>
   parse_named_queries (ustr ''-- name:\<newline>A\<newline>'') = Inr [] \<and>
   parse_named_queries (ustr ''-- name:\<newline>A\<newline>-- name: x\<newline>B\<newline>'') =
     Inr [(ustr ''x'', ustr ''A\<newline>B'')] \<and>
   (\<exists>st'. run_lines init ([] @ ustr ''-- name:\<newline>'' # [ustr ''A\<newline>''] @ ustr ''-- name: x\<newline>'' #
              [ustr ''B\<newline>''] @ [ustr ''-- name: y\<newline>'']) = Inr st' \<and>
      queries st' = [(ustr ''x'', ustr ''A\<newline>B'')] \<and> buffer st' = [])"
proof -
  let ?d0 = "ustr ''-- name:\<newline>''"
  let ?mid = "[ustr ''A\<newline>'']"
  let ?d1 = "ustr ''-- name: x\<newline>''"
  let ?body = "[ustr ''B\<newline>'']"
  let ?d2 = "ustr ''-- name: y\<newline>''"
  let ?st = "\<lparr>queries = [], current_name = Some [], buffer = []\<rparr>"
  let ?short = "ustr ''-- name:\<newline>A\<newline>''"
  let ?long = "ustr ''-- name:\<newline>A\<newline>-- name: x\<newline>B\<newline>''"
  let ?q = "[(ustr ''x'', ustr ''A\<newline>B'')]"
  have h1: "is_directive ?d0" and h2: "directive_name ?d0 = Inr []"
    by (simp_all add: evals)
  have h3: "run_lines init ([] @ [?d0]) = Inr ?st"
    by (simp add: evals)
  have h4: "\<forall>l\<in>set ?mid. is_directive l \<longrightarrow> directive_name l = Inr []"
    by (simp add: evals)
  have q: "parse_named_queries ?long = Inr ?q"
    by (simp add: evals)
  have ls: "file_lines ?short = [] @ ?d0 # ?mid"
    and ll: "file_lines ?long = [] @ ?d0 # ?mid @ ?d1 # ?body"
    by (simp_all add: evals)
  have d1: "is_directive ?d1" "directive_name ?d1 = Inr (ustr ''x'')" "ustr ''x'' \<noteq> []"
    and body: "\<forall>l\<in>set ?body. \<not> is_directive l"
    and d2: "is_directive ?d2"
    by (simp_all add: evals)
  have nd: "\<not> is_directive (ustr ''A\<newline>'')"
    by (simp add: evals)
  have ne: "buffer ?st @ filter (\<lambda>l. \<not> is_directive l) ?mid @ ?body \<noteq> []"
    by simp
  have v: "dict_set (queries ?st) (ustr ''x'')
      (strip (join [] (buffer ?st @ filter (\<lambda>l. \<not> is_directive l) ?mid @ ?body))) = ?q"
    by (simp add: evals)
  have st1: "?st\<lparr>buffer := buffer ?st @ filter (\<lambda>l. \<not> is_directive l) ?mid\<rparr> =
      \<lparr>queries = [], current_name = Some [], buffer = ?mid\<rparr>"
    by (simp add: nd)
  note a = empty_name_directive [OF h1 h2 h3 h4, of ?long ?q ?short ?d1 "ustr ''x''" ?body ?d2]
  note b = empty_name_directive [OF h1 h2 h3 h4, of ?long ?q ?long ?d1 "ustr ''x''" ?body ?d2]
  from a q have "[] \<notin> set (keys ?q)"
    by blast
  moreover from a have "run_lines init ([] @ ?d0 # ?mid) =
      Inr \<lparr>queries = [], current_name = Some [], buffer = ?mid\<rparr>"
    by (simp only: st1)
  moreover from a ls have "parse_named_queries ?short = Inr (queries ?st)"
    by blast
  then have "parse_named_queries ?short = Inr []"
    by (simp only: state.select_convs)
  moreover from b d1 body ne ll have "parse_named_queries ?long =
      Inr (dict_set (queries ?st) (ustr ''x'')
        (strip (join [] (buffer ?st @ filter (\<lambda>l. \<not> is_directive l) ?mid @ ?body))))"
    by blast
  then have "parse_named_queries ?long = Inr ?q"
    by (simp only: v)
  moreover from b d1 body ne d2
  have "\<exists>st'. run_lines init ([] @ ?d0 # ?mid @ ?d1 # ?body @ [?d2]) = Inr st' \<and>
      queries st' = dict_set (queries ?st) (ustr ''x'')
        (strip (join [] (buffer ?st @ filter (\<lambda>l. \<not> is_directive l) ?mid @ ?body))) \<and>
      buffer st' = []"
    by blast
  then have "\<exists>st'. run_lines init ([] @ ?d0 # ?mid @ ?d1 # ?body @ [?d2]) = Inr st' \<and>
      queries st' = ?q \<and> buffer st' = []"
    by (simp only: v)
  ultimately show ?thesis
    by blast
qed

section \<open>Directive lines\<close>

lemma directive_split:
  assumes "is_directive line"
  shows "\<exists>a b. line = a @ ustr '':'' @ b \<and> set (ustr '':'') \<inter> set a = {} \<and>
           directive_name line = Inr (strip b)"
proof -
  from assms have "58 \<in> set line"
    by (rule colon_in_directive)
  then obtain a b where ab: "line = a @ 58 # b" "58 \<notin> set a"
    using split_list_first by metis
  from ab(2) have "dropWhile (\<lambda>c. c \<noteq> 58) (a @ 58 # b) = 58 # b"
    by (auto simp: dropWhile_append3)
  with \<open>58 \<in> set line\<close> ab(1) have "directive_name line = Inr (strip b)"
    by (simp add: directive_name_colon)
  with ab show ?thesis
    by (auto simp: ustr_def)
qed

text \<open>
  C7: a line is handled as a directive exactly when, stripped, it starts with
  \<open>-- name:\<close>. Any other line is appended to the buffer as it is. A directive line is
  never appended: it makes the text after its first colon, stripped, the active name and
  leaves the buffer as it was or, after a flush, empty. So every body of the result is
  the stripped concatenation of lines of the file that are no directives. The file of the
  example parses to the two entries \<open>q1\<close> and \<open>q2\<close>.
\<close>

theorem directive_recognition:
  "(\<not> startswith (strip line) (ustr ''-- name:'') \<longrightarrow>
      step st line = Inr (st\<lparr>buffer := buffer st @ [line]\<rparr>)) \<and>
   (startswith (strip line) (ustr ''-- name:'') \<longrightarrow>
      (\<exists>a b st'. line = a @ ustr '':'' @ b \<and> set (ustr '':'') \<inter> set a = {} \<and>
         step st line = Inr st' \<and> current_name st' = Some (strip b) \<and>
         (buffer st' = buffer st \<or> buffer st' = []))) \<and>
   (parse_named_queries text = Inr q \<longrightarrow>
      (\<forall>kv\<in>set q. \<exists>xs.
         set xs \<subseteq> {l \<in> set (file_lines text). \<not> startswith (strip l) (ustr ''-- name:'')} \<and>
         snd kv = strip (join [] xs))) \<and>
   parse_named_queries (ustr ''-- name: q1\<newline>SELECT 1;\<newline>-- name: q2\<newline>SELECT 2;\<newline>'') =
     Inr [(ustr ''q1'', ustr ''SELECT 1;''), (ustr ''q2'', ustr ''SELECT 2;'')]"
proof (intro conjI impI)
  assume "\<not> startswith (strip line) (ustr ''-- name:'')"
  then have "\<not> is_directive line"
    by (simp add: is_directive_def marker_def)
  then show "step st line = Inr (st\<lparr>buffer := buffer st @ [line]\<rparr>)"
    by (rule step_content)
next
  assume "startswith (strip line) (ustr ''-- name:'')"
  then have d: "is_directive line"
    by (simp add: is_directive_def marker_def)
  then obtain a b where ab: "line = a @ ustr '':'' @ b" "set (ustr '':'') \<inter> set a = {}"
    "directive_name line = Inr (strip b)"
    using directive_split by blast
  let ?st' = "(if pending st then st\<lparr>queries := store st, buffer := []\<rparr> else st)
    \<lparr>current_name := Some (strip b)\<rparr>"
  from d ab(3) have "step st line = Inr ?st'"
    by (rule step_directive)
  moreover have "current_name ?st' = Some (strip b)"
    by simp
  moreover have "buffer ?st' = buffer st \<or> buffer ?st' = []"
    by simp
  ultimately show "\<exists>a b st'. line = a @ ustr '':'' @ b \<and> set (ustr '':'') \<inter> set a = {} \<and>
      step st line = Inr st' \<and> current_name st' = Some (strip b) \<and>
      (buffer st' = buffer st \<or> buffer st' = [])"
    using ab(1,2) by blast
next
  assume q: "parse_named_queries text = Inr q"
  let ?S = "{l \<in> set (file_lines text). \<not> is_directive l}"
  obtain st' where st': "run_lines init (file_lines text) = Inr st'"
    using run_lines_total by blast
  then have "set (buffer st') \<subseteq> ?S \<and>
      (\<forall>kv\<in>set (queries st'). \<exists>xs. set xs \<subseteq> ?S \<and> snd kv = strip (join [] xs))"
    by (rule run_lines_bodies) (simp_all add: init_def)
  then have "\<forall>kv\<in>set (finish st'). \<exists>xs. set xs \<subseteq> ?S \<and> snd kv = strip (join [] xs)"
    by (intro finish_bodies) simp_all
  moreover from q st' have "q = finish st'"
    by (simp add: parse_named_queries_def parse_lines_def)
  ultimately show "\<forall>kv\<in>set q. \<exists>xs.
      set xs \<subseteq> {l \<in> set (file_lines text). \<not> startswith (strip l) (ustr ''-- name:'')} \<and>
      snd kv = strip (join [] xs)"
    by (simp add: is_directive_def marker_def)
next
  show "parse_named_queries (ustr ''-- name: q1\<newline>SELECT 1;\<newline>-- name: q2\<newline>SELECT 2;\<newline>'') =
      Inr [(ustr ''q1'', ustr ''SELECT 1;''), (ustr ''q2'', ustr ''SELECT 2;'')]"
    by (simp add: evals)
qed

theorem directive_recognition_witness:
  "step init (ustr ''SELECT 1;\<newline>'') = Inr (init\<lparr>buffer := buffer init @ [ustr ''SELECT 1;\<newline>'']\<rparr>) \<and>
   (\<exists>a b st'. ustr ''  -- name:  rev: by day \<newline>'' = a @ ustr '':'' @ b \<and>
      set (ustr '':'') \<inter> set a = {} \<and>
      step init (ustr ''  -- name:  rev: by day \<newline>'') = Inr st' \<and>
      current_name st' = Some (strip b) \<and> (buffer st' = buffer init \<or> buffer st' = [])) \<and>
   list_all (\<lambda>kv. \<exists>xs.
       set xs \<subseteq> {l \<in> set (file_lines (ustr ''-- name: q1\<newline>SELECT 1;\<newline>-- name: q2\<newline>SELECT 2;\<newline>'')).
                  \<not> startswith (strip l) (ustr ''-- name:'')} \<and>
       snd kv = strip (join [] xs))
     [(ustr ''q1'', ustr ''SELECT 1;''), (ustr ''q2'', ustr ''SELECT 2;'')]"
proof (intro conjI)
  let ?text = "ustr ''-- name: q1\<newline>SELECT 1;\<newline>-- name: q2\<newline>SELECT 2;\<newline>''"
  let ?q = "[(ustr ''q1'', ustr ''SELECT 1;''), (ustr ''q2'', ustr ''SELECT 2;'')]"
  have n: "\<not> startswith (strip (ustr ''SELECT 1;\<newline>'')) (ustr ''-- name:'')"
    by (simp add: evals)
  from directive_recognition [of "ustr ''SELECT 1;\<newline>''" init] n
  show "step init (ustr ''SELECT 1;\<newline>'') = Inr (init\<lparr>buffer := buffer init @ [ustr ''SELECT 1;\<newline>'']\<rparr>)"
    by blast
  have y: "startswith (strip (ustr ''  -- name:  rev: by day \<newline>'')) (ustr ''-- name:'')"
    by (simp add: evals)
  from directive_recognition [of "ustr ''  -- name:  rev: by day \<newline>''" init] y
  show "\<exists>a b st'. ustr ''  -- name:  rev: by day \<newline>'' = a @ ustr '':'' @ b \<and>
      set (ustr '':'') \<inter> set a = {} \<and>
      step init (ustr ''  -- name:  rev: by day \<newline>'') = Inr st' \<and>
      current_name st' = Some (strip b) \<and> (buffer st' = buffer init \<or> buffer st' = [])"
    by blast
  have q: "parse_named_queries ?text = Inr ?q"
    by (simp add: evals)
  from directive_recognition [of _ _ ?text ?q] q
  have "\<forall>kv\<in>set ?q. \<exists>xs.
      set xs \<subseteq> {l \<in> set (file_lines ?text). \<not> startswith (strip l) (ustr ''-- name:'')} \<and>
      snd kv = strip (join [] xs)"
    by blast
  then show "list_all (\<lambda>kv. \<exists>xs.
      set xs \<subseteq> {l \<in> set (file_lines ?text). \<not> startswith (strip l) (ustr ''-- name:'')} \<and>
      snd kv = strip (join [] xs)) ?q"
    by (simp only: list_all_iff)
qed

section \<open>Running the queries\<close>

lemmas run_evals =
  evals heading_def plan_prefix_def skipped_def not_found_def not_found_message_def
  run_queries_def

lemma executed_append: "executed (xs @ ys) = executed xs @ executed ys"
  by (induction xs rule: executed.induct) simp_all

lemma executed_map_row: "executed (map Print_row rows) = []"
  by (induction rows) simp_all

lemma skipped_None: "\<not> skipped None name"
  by (simp add: skipped_def)

lemma run_loop_raise:
  "conn (plan_prefix explain @ sql) = Inl e \<Longrightarrow>
   executed (fst (run_loop conn None explain ((name, sql) # q))) = [plan_prefix explain @ sql]"
  by (simp add: skipped_None)

lemma run_loop_rows:
  "conn (plan_prefix explain @ sql) = Inr rows \<Longrightarrow>
   executed (fst (run_loop conn None explain ((name, sql) # q))) =
     (plan_prefix explain @ sql) # executed (fst (run_loop conn None explain q)) \<and>
   snd (run_loop conn None explain ((name, sql) # q)) = snd (run_loop conn None explain q)"
  by (cases "run_loop conn None explain q")
    (simp add: skipped_None executed_append executed_map_row)

lemma run_loop_order:
  "\<exists>rest. map (\<lambda>kv. plan_prefix explain @ snd kv) q =
     executed (fst (run_loop conn None explain q)) @ rest"
proof (induction q)
  case Nil
  show ?case by simp
next
  case (Cons kv q)
  obtain name sql where kv: "kv = (name, sql)"
    by (cases kv)
  show ?case
  proof (cases "conn (plan_prefix explain @ sql)")
    case (Inl e)
    then have "executed (fst (run_loop conn None explain (kv # q))) = [plan_prefix explain @ sql]"
      unfolding kv by (rule run_loop_raise)
    then show ?thesis
      by (simp add: kv)
  next
    case (Inr rows)
    then have "executed (fst (run_loop conn None explain (kv # q))) =
        (plan_prefix explain @ sql) # executed (fst (run_loop conn None explain q))"
      unfolding kv by (simp only: run_loop_rows)
    moreover from Cons obtain rest where
      "map (\<lambda>kv. plan_prefix explain @ snd kv) q =
         executed (fst (run_loop conn None explain q)) @ rest"
      by blast
    ultimately show ?thesis
      by (simp add: kv)
  qed
qed

lemma run_loop_all:
  "\<forall>kv\<in>set q. \<exists>rows. conn (plan_prefix explain @ snd kv) = Inr rows \<Longrightarrow>
   executed (fst (run_loop conn None explain q)) = map (\<lambda>kv. plan_prefix explain @ snd kv) q \<and>
   snd (run_loop conn None explain q) = None"
proof (induction q)
  case Nil
  show ?case by simp
next
  case (Cons kv q)
  obtain name sql where kv: "kv = (name, sql)"
    by (cases kv)
  from Cons.prems obtain rows where "conn (plan_prefix explain @ sql) = Inr rows"
    by (auto simp: kv)
  then have "executed (fst (run_loop conn None explain (kv # q))) =
      (plan_prefix explain @ sql) # executed (fst (run_loop conn None explain q)) \<and>
    snd (run_loop conn None explain (kv # q)) = snd (run_loop conn None explain q)"
    unfolding kv by (rule run_loop_rows)
  moreover from Cons have
    "executed (fst (run_loop conn None explain q)) = map (\<lambda>kv. plan_prefix explain @ snd kv) q \<and>
     snd (run_loop conn None explain q) = None"
    by simp
  ultimately show ?case
    by (simp add: kv)
qed

lemma run_queries_None:
  "parse_named_queries text = Inr q \<Longrightarrow>
   run_queries (Inr conn) text None explain = run_loop conn None explain q"
  by (simp add: run_queries_def not_found_def)

text \<open>
  C3: without a selected name, \<open>run_queries\<close> hands the bodies of the parsed mapping to
  the engine in the order of the mapping, all of them unless the engine raises, and never
  in another order. That order is the order in which the names were first stored: the
  keys present after any first part of the file are a prefix of the keys of the result,
  so a key stored earlier comes before every key stored later; storing under a key that
  is present leaves the keys as they are, storing under a new key appends it.
\<close>

theorem run_all_in_file_order:
  "(parse_named_queries text = Inr q \<longrightarrow>
      (\<exists>rest. map (\<lambda>kv. plan_prefix explain @ snd kv) q =
         executed (fst (run_queries (Inr conn) text None explain)) @ rest) \<and>
      ((\<forall>kv\<in>set q. \<exists>rows. conn (plan_prefix explain @ snd kv) = Inr rows) \<longrightarrow>
         executed (fst (run_queries (Inr conn) text None explain)) =
           map (\<lambda>kv. plan_prefix explain @ snd kv) q \<and>
         snd (run_queries (Inr conn) text None explain) = None)) \<and>
   (file_lines text = ls1 @ ls2 \<longrightarrow> run_lines init ls1 = Inr st1 \<longrightarrow>
      parse_named_queries text = Inr q \<longrightarrow> (\<exists>ks. keys q = keys (queries st1) @ ks)) \<and>
   (k \<in> set (keys d) \<longrightarrow> keys (dict_set d k v) = keys d) \<and>
   (k \<notin> set (keys d) \<longrightarrow> keys (dict_set d k v) = keys d @ [k])"
proof (intro conjI impI)
  assume q: "parse_named_queries text = Inr q"
  then have r: "run_queries (Inr conn) text None explain = run_loop conn None explain q"
    by (rule run_queries_None)
  show "\<exists>rest. map (\<lambda>kv. plan_prefix explain @ snd kv) q =
      executed (fst (run_queries (Inr conn) text None explain)) @ rest"
    unfolding r by (rule run_loop_order)
  assume "\<forall>kv\<in>set q. \<exists>rows. conn (plan_prefix explain @ snd kv) = Inr rows"
  then have a: "executed (fst (run_loop conn None explain q)) =
      map (\<lambda>kv. plan_prefix explain @ snd kv) q \<and> snd (run_loop conn None explain q) = None"
    by (rule run_loop_all)
  from a show "executed (fst (run_queries (Inr conn) text None explain)) =
      map (\<lambda>kv. plan_prefix explain @ snd kv) q"
    unfolding r by simp
  from a show "snd (run_queries (Inr conn) text None explain) = None"
    unfolding r by simp
next
  assume l: "file_lines text = ls1 @ ls2" and st1: "run_lines init ls1 = Inr st1"
    and q: "parse_named_queries text = Inr q"
  obtain st2 where st2: "run_lines st1 ls2 = Inr st2"
    using run_lines_total by blast
  then have "run_lines init (ls1 @ ls2) = Inr st2"
    using run_lines_append [OF st1, of ls2] by (simp only:)
  with l q have "q = finish st2"
    by (simp add: parse_named_queries_def parse_lines_def)
  moreover obtain ks1 where "keys (queries st2) = keys (queries st1) @ ks1"
    using run_lines_keys_grow [OF st2] by blast
  moreover obtain ks2 where "keys (finish st2) = keys (queries st2) @ ks2"
    using finish_keys_grow by blast
  ultimately have "keys q = keys (queries st1) @ ks1 @ ks2"
    by simp
  then show "\<exists>ks. keys q = keys (queries st1) @ ks" ..
next
  assume "k \<in> set (keys d)"
  then show "keys (dict_set d k v) = keys d"
    by (simp add: keys_dict_set)
next
  assume "k \<notin> set (keys d)"
  then show "keys (dict_set d k v) = keys d @ [k]"
    by (simp add: keys_dict_set)
qed

theorem run_all_in_file_order_witness:
  "(\<exists>rest. [ustr ''B2'', ustr ''A''] =
      executed (fst (run_queries (Inr (\<lambda>s. Inr [s]))
        (ustr ''-- name: b\<newline>B1\<newline>-- name: a\<newline>A\<newline>-- name: b\<newline>B2\<newline>'') None False)) @ rest) \<and>
   executed (fst (run_queries (Inr (\<lambda>s. Inr [s]))
     (ustr ''-- name: b\<newline>B1\<newline>-- name: a\<newline>A\<newline>-- name: b\<newline>B2\<newline>'') None False)) =
     [ustr ''B2'', ustr ''A''] \<and>
   snd (run_queries (Inr (\<lambda>s. Inr [s]))
     (ustr ''-- name: b\<newline>B1\<newline>-- name: a\<newline>A\<newline>-- name: b\<newline>B2\<newline>'') None False) = None \<and>
   (\<exists>ks. keys [(ustr ''b'', ustr ''B2''), (ustr ''a'', ustr ''A'')] = [ustr ''b''] @ ks) \<and>
   keys (dict_set [(ustr ''b'', ustr ''B1''), (ustr ''a'', ustr ''A'')] (ustr ''b'') (ustr ''B2'')) =
     keys [(ustr ''b'', ustr ''B1''), (ustr ''a'', ustr ''A'')] \<and>
   keys (dict_set [(ustr ''b'', ustr ''B1'')] (ustr ''a'') (ustr ''A'')) =
     keys [(ustr ''b'', ustr ''B1'')] @ [ustr ''a'']"
proof -
  let ?text = "ustr ''-- name: b\<newline>B1\<newline>-- name: a\<newline>A\<newline>-- name: b\<newline>B2\<newline>''"
  let ?conn = "\<lambda>s :: pystr. (Inr [s] :: pystr + pystr list)"
  let ?q = "[(ustr ''b'', ustr ''B2''), (ustr ''a'', ustr ''A'')]"
  let ?ls1 = "[ustr ''-- name: b\<newline>'', ustr ''B1\<newline>'', ustr ''-- name: a\<newline>'']"
  let ?ls2 = "[ustr ''A\<newline>'', ustr ''-- name: b\<newline>'', ustr ''B2\<newline>'']"
  let ?st1 = "\<lparr>queries = [(ustr ''b'', ustr ''B1'')], current_name = Some (ustr ''a''), buffer = []\<rparr>"
  have q: "parse_named_queries ?text = Inr ?q"
    by (simp add: evals)
  have ok: "\<forall>kv\<in>set ?q. \<exists>rows. ?conn (plan_prefix False @ snd kv) = Inr rows"
    by simp
  have l: "file_lines ?text = ?ls1 @ ?ls2"
    by (simp add: evals)
  have st1: "run_lines init ?ls1 = Inr ?st1"
    by (simp add: evals)
  have m: "map (\<lambda>kv. plan_prefix False @ snd kv) ?q = [ustr ''B2'', ustr ''A'']"
    by (simp add: plan_prefix_def)
  have k1: "ustr ''b'' \<in> set (keys [(ustr ''b'', ustr ''B1''), (ustr ''a'', ustr ''A'')])"
    and k2: "ustr ''a'' \<notin> set (keys [(ustr ''b'', ustr ''B1'')])"
    and k3: "keys (queries ?st1) = [ustr ''b'']"
    by (simp_all add: keys_def ustr_def)
  note a = run_all_in_file_order [of ?text ?q False ?conn ?ls1 ?ls2 ?st1 "ustr ''b''"
      "[(ustr ''b'', ustr ''B1''), (ustr ''a'', ustr ''A'')]" "ustr ''B2''"]
  note b = run_all_in_file_order [of ?text ?q False ?conn ?ls1 ?ls2 ?st1 "ustr ''a''"
      "[(ustr ''b'', ustr ''B1'')]" "ustr ''A''"]
  from a q have "\<exists>rest. map (\<lambda>kv. plan_prefix False @ snd kv) ?q =
      executed (fst (run_queries (Inr ?conn) ?text None False)) @ rest"
    by blast
  then have c1: "\<exists>rest. [ustr ''B2'', ustr ''A''] =
      executed (fst (run_queries (Inr ?conn) ?text None False)) @ rest"
    by (simp only: m)
  from a q ok have "executed (fst (run_queries (Inr ?conn) ?text None False)) =
      map (\<lambda>kv. plan_prefix False @ snd kv) ?q \<and>
    snd (run_queries (Inr ?conn) ?text None False) = None"
    by blast
  then have c2: "executed (fst (run_queries (Inr ?conn) ?text None False)) = [ustr ''B2'', ustr ''A''] \<and>
    snd (run_queries (Inr ?conn) ?text None False) = None"
    by (simp only: m)
  from a q l st1 have "\<exists>ks. keys ?q = keys (queries ?st1) @ ks"
    by blast
  then have c3: "\<exists>ks. keys ?q = [ustr ''b''] @ ks"
    by (simp only: k3)
  from a k1 have c4: "keys (dict_set [(ustr ''b'', ustr ''B1''), (ustr ''a'', ustr ''A'')] (ustr ''b'') (ustr ''B2'')) =
      keys [(ustr ''b'', ustr ''B1''), (ustr ''a'', ustr ''A'')]"
    by blast
  from b k2 have c5: "keys (dict_set [(ustr ''b'', ustr ''B1'')] (ustr ''a'') (ustr ''A'')) =
      keys [(ustr ''b'', ustr ''B1'')] @ [ustr ''a'']"
    by blast
  from c1 c2 c3 c4 c5 show ?thesis
    by blast
qed

section \<open>An unknown query name\<close>

text \<open>
  C6, as the code has it: for every parsed mapping and every supplied query name that is
  not empty and not a key of the mapping, \<open>run_queries\<close> ends with \<open>SystemExit\<close> before
  the engine is opened, so nothing is printed or executed; the message names the query
  and lists the keys of the mapping, each once, in sorted order, separated by commas.
\<close>

theorem unknown_name_exits:
  assumes "parse_named_queries text = Inr q" "s \<noteq> []" "s \<notin> set (keys q)"
  shows "\<exists>names. run_queries engine text (Some s) explain =
           ([], Some (SystemExit (ustr ''Query '' @ [39] @ s @ [39]
              @ ustr '' not found. Available: '' @ join (ustr '', '') names))) \<and>
           sorted names \<and> distinct names \<and> set names = set (keys q)"
proof -
  obtain st where st: "run_lines init (file_lines text) = Inr st"
    using run_lines_total by blast
  then have "distinct (keys (queries st))"
    by (rule run_lines_distinct) (simp add: init_def keys_def)
  then have "distinct (keys (finish st))"
    by (rule finish_distinct)
  moreover from assms(1) st have "q = finish st"
    by (simp add: parse_named_queries_def parse_lines_def)
  ultimately have "distinct (sort (keys q))"
    by simp
  moreover have "sorted (sort (keys q))" "set (sort (keys q)) = set (keys q)"
    by simp_all
  moreover from assms have "run_queries engine text (Some s) explain =
      ([], Some (SystemExit (ustr ''Query '' @ [39] @ s @ [39]
         @ ustr '' not found. Available: '' @ join (ustr '', '') (sort (keys q)))))"
    by (simp add: run_queries_def not_found_def not_found_message_def)
  ultimately show ?thesis
    by blast
qed

theorem unknown_name_exits_witness:
  "(\<exists>names. run_queries (Inr (\<lambda>s. Inr [s]))
       (ustr ''-- name: b\<newline>B1\<newline>-- name: a\<newline>A\<newline>'') (Some (ustr ''c'')) False =
       ([], Some (SystemExit (ustr ''Query '' @ [39] @ ustr ''c'' @ [39]
          @ ustr '' not found. Available: '' @ join (ustr '', '') names))) \<and>
       sorted names \<and> distinct names \<and>
       set names = set (keys [(ustr ''b'', ustr ''B1''), (ustr ''a'', ustr ''A'')])) \<and>
   run_queries (Inr (\<lambda>s. Inr [s]))
     (ustr ''-- name: b\<newline>B1\<newline>-- name: a\<newline>A\<newline>'') (Some (ustr ''c'')) False =
     ([], Some (SystemExit (ustr ''Query '' @ [39] @ ustr ''c'' @ [39]
        @ ustr '' not found. Available: a, b'')))"
proof
  let ?text = "ustr ''-- name: b\<newline>B1\<newline>-- name: a\<newline>A\<newline>''"
  let ?q = "[(ustr ''b'', ustr ''B1''), (ustr ''a'', ustr ''A'')]"
  have q: "parse_named_queries ?text = Inr ?q"
    by (simp add: evals)
  have s: "ustr ''c'' \<noteq> []" "ustr ''c'' \<notin> set (keys ?q)"
    by (simp_all add: ustr_def keys_def)
  from unknown_name_exits [OF q s, of "Inr (\<lambda>s. Inr [s])" False]
  show "\<exists>names. run_queries (Inr (\<lambda>s. Inr [s])) ?text (Some (ustr ''c'')) False =
      ([], Some (SystemExit (ustr ''Query '' @ [39] @ ustr ''c'' @ [39]
         @ ustr '' not found. Available: '' @ join (ustr '', '') names))) \<and>
      sorted names \<and> distinct names \<and> set names = set (keys ?q)" .
  show "run_queries (Inr (\<lambda>s. Inr [s])) ?text (Some (ustr ''c'')) False =
      ([], Some (SystemExit (ustr ''Query '' @ [39] @ ustr ''c'' @ [39]
         @ ustr '' not found. Available: a, b'')))"
    by (simp add: run_evals)
qed

text \<open>
  The empty string is no key of the mapping, yet selecting it raises nothing: the only
  query of the file is run.
\<close>

theorem unknown_name_counterexample:
  "parse_named_queries (ustr ''-- name: q1\<newline>SELECT 1;\<newline>'') = Inr [(ustr ''q1'', ustr ''SELECT 1;'')] \<and>
   [] \<notin> set (keys [(ustr ''q1'', ustr ''SELECT 1;'')]) \<and>
   run_queries (Inr (\<lambda>s. Inr [()])) (ustr ''-- name: q1\<newline>SELECT 1;\<newline>'') (Some []) False =
     ([Print (heading (ustr ''q1'')), Execute (ustr ''SELECT 1;''), Print_row ()], None)"
  by (simp add: run_evals)

section \<open>The revenue rank\<close>

lemma revenue_rank_rows: "map fst (revenue_rank groups) = order_by_desc groups"
  by (simp add: revenue_rank_def row_number_def del: upt_Suc)

lemma revenue_rank_numbers: "map snd (revenue_rank groups) = [1 ..< Suc (length groups)]"
  by (simp add: revenue_rank_def row_number_def order_by_desc_def del: upt_Suc)

text \<open>
  C8, as the code has it: the revenue rank is the row number in the order of total
  revenue, largest first. The ranks are 1 up to the number of customers, without gaps and
  each given once, so two customers with equal total revenue get different ranks; the
  ranked rows are the groups, and along the ranks the totals never increase.
\<close>

theorem revenue_rank_is_row_number:
  "map snd (revenue_rank groups) = [1 ..< Suc (length groups)] \<and>
   distinct (map snd (revenue_rank groups)) \<and>
   length (revenue_rank groups) = length groups \<and>
   set (map fst (revenue_rank groups)) = set groups \<and>
   distinct (map fst (revenue_rank groups)) = distinct groups \<and>
   sorted (rev (map (\<lambda>r. snd (fst r)) (revenue_rank groups)))"
proof (intro conjI)
  show "map snd (revenue_rank groups) = [1 ..< Suc (length groups)]"
    by (rule revenue_rank_numbers)
  then show "distinct (map snd (revenue_rank groups))"
    by simp
  show "length (revenue_rank groups) = length groups"
    by (simp add: revenue_rank_def row_number_def order_by_desc_def del: upt_Suc)
  show "set (map fst (revenue_rank groups)) = set groups"
    by (simp only: revenue_rank_rows) (simp add: order_by_desc_def)
  show "distinct (map fst (revenue_rank groups)) = distinct groups"
    by (simp only: revenue_rank_rows) (simp add: order_by_desc_def)
  have "map (\<lambda>r. snd (fst r)) (revenue_rank groups) = map snd (map fst (revenue_rank groups))"
    by simp
  also have "\<dots> = rev (map snd (sort_key snd groups))"
    by (simp only: revenue_rank_rows order_by_desc_def rev_map)
  finally show "sorted (rev (map (\<lambda>r. snd (fst r)) (revenue_rank groups)))"
    by simp
qed

text \<open>
  Two customers with the same total get the ranks 1 and 2, in either order of the groups;
  the dense rank of both is 1.
\<close>

theorem revenue_rank_counterexample:
  "revenue_rank [(1 :: int, 100 :: int), (2, 100)] = [((2, 100), 1), ((1, 100), 2)] \<and>
   revenue_rank [(2 :: int, 100 :: int), (1, 100)] = [((1, 100), 1), ((2, 100), 2)] \<and>
   dense_rank_spec [(1 :: int, 100 :: int), (2, 100)] 100 = 1"
  by (simp add: revenue_rank_def row_number_def order_by_desc_def dense_rank_spec_def upt_rec)

end
